theory Spec2Isabelle
  imports Complex_Main "HOL-Library.Sublist" "HOL-Library.Multiset"
begin

section \<open>Module registry (src/src/registry.ts)\<close>

subsection \<open>Configuration values\<close>

text \<open>
  The values a configuration object can hold under an option key, as far as
  \<^verbatim>\<open>hasPluginOptions\<close> tells them apart: \<^verbatim>\<open>undefined\<close>, \<^verbatim>\<open>null\<close>, a boolean, a number,
  a string, or any object (arrays and functions included).
\<close>

datatype jsvalue = Undefined | Null | Boolean bool | Number real | String string | Object

text \<open>
  A configuration is a plain object; reading a key it does not have gives \<^verbatim>\<open>undefined\<close>.
\<close>

type_synonym options = "string \<rightharpoonup> jsvalue"

definition prop_get :: "options \<Rightarrow> string \<Rightarrow> jsvalue" where
  "prop_get opts k = (case opts k of None \<Rightarrow> Undefined | Some v \<Rightarrow> v)"

text \<open>
  JavaScript's truthiness (\<^verbatim>\<open>ToBoolean\<close>): the words of the specification speak of a
  truthy value; the registry's code never calls it. NaN is not a real number and is
  left out of the model.
\<close>

fun truthy :: "jsvalue \<Rightarrow> bool" where
  "truthy Undefined = False"
| "truthy Null = False"
| "truthy (Boolean b) = b"
| "truthy (Number n) = (n \<noteq> 0)"
| "truthy (String s) = (s \<noteq> [])"
| "truthy Object = True"

subsection \<open>Plugin descriptors\<close>

text \<open>
  \<^verbatim>\<open>AnimationPlugin\<close> of src/src/types/core.ts, with the fields the registry reads.
  An optional field is an \<open>option\<close>. The setup function receives the shared data of
  the context and the extracted options (the field is \<open>setupFn\<close>, as \<open>setup\<close> is a
  reserved word here); it returns the plugin system (\<open>Inr\<close>) or throws an error
  (\<open>Inl\<close>); either result carries the shared data as the function left it.
\<close>

record 's plugin =
  name :: string
  version :: string
  setupFn :: "(string \<rightharpoonup> 's) \<Rightarrow> jsvalue
                \<Rightarrow> (string \<times> (string \<rightharpoonup> 's)) + ('s \<times> (string \<rightharpoonup> 's))"
  shouldActivate :: "(options \<Rightarrow> bool) option"
  optionsKey :: "string option"
  cleanupPriority :: "int option"
  requires :: "string list option"
  conflicts :: "string list option"
  priority :: "int option"

text \<open>\<^verbatim>\<open>plugin.optionsKey || plugin.name\<close>: an empty options key is falsy too.\<close>

definition optionsKeyOf :: "'s plugin \<Rightarrow> string" where
  "optionsKeyOf p = (case optionsKey p of None \<Rightarrow> name p
     | Some k \<Rightarrow> if k = [] then name p else k)"

definition hasPluginOptions :: "'s plugin \<Rightarrow> options \<Rightarrow> bool" where
  "hasPluginOptions p opts =
     (let v = prop_get opts (optionsKeyOf p) in
      if v = Undefined \<or> v = Null then False
      else case v of Boolean b \<Rightarrow> b | _ \<Rightarrow> True)"

definition extractPluginOptions :: "'s plugin \<Rightarrow> options \<Rightarrow> jsvalue" where
  "extractPluginOptions p opts = prop_get opts (optionsKeyOf p)"

text \<open>
  The registry's \<^verbatim>\<open>Map\<close> from names to plugins, in insertion order, which is the
  order \<^verbatim>\<open>forEach\<close> visits: a list of plugins.
\<close>

type_synonym 's registry = "'s plugin list"

text \<open>
  \<^verbatim>\<open>plugin.shouldActivate?.(options) ?? this.hasPluginOptions(plugin, options)\<close>
\<close>

definition shouldActivateOf :: "'s plugin \<Rightarrow> options \<Rightarrow> bool" where
  "shouldActivateOf p opts =
     (case shouldActivate p of Some f \<Rightarrow> f opts | None \<Rightarrow> hasPluginOptions p opts)"

definition getActivePlugins :: "'s registry \<Rightarrow> options \<Rightarrow> 's plugin list" where
  "getActivePlugins reg opts = filter (\<lambda>p. shouldActivateOf p opts) reg"

subsection \<open>Dependency and conflict validation\<close>

text \<open>
  A \<^verbatim>\<open>forEach\<close> whose body may throw: the first error ends the loop.
\<close>

fun firstError :: "('a \<Rightarrow> string option) \<Rightarrow> 'a list \<Rightarrow> string option" where
  "firstError f [] = None"
| "firstError f (x # xs) = (case f x of Some e \<Rightarrow> Some e | None \<Rightarrow> firstError f xs)"

text \<open>\<^verbatim>\<open>required.split('.')[0]\<close>: the text before the first dot.\<close>

definition requiredPlugin :: "string \<Rightarrow> string" where
  "requiredPlugin required = takeWhile (\<lambda>c. c \<noteq> CHR ''.'') required"

definition requiresError :: "string \<Rightarrow> string \<Rightarrow> string" where
  "requiresError pluginName requiredName =
     ''Plugin '' @ [CHR 0x27] @ pluginName @ [CHR 0x27] @ '' requires '' @ [CHR 0x27]
       @ requiredName @ [CHR 0x27] @ '' but it is not enabled. ''
       @ ''Add '' @ requiredName @ '': {...} to your options.''"

definition conflictError :: "string \<Rightarrow> string \<Rightarrow> string" where
  "conflictError pluginName conflictName =
     ''Plugin '' @ [CHR 0x27] @ pluginName @ [CHR 0x27] @ '' conflicts with '' @ [CHR 0x27]
       @ conflictName @ [CHR 0x27] @ ''. ''
       @ ''You cannot use both plugins simultaneously.''"

definition requiresOf :: "'s plugin \<Rightarrow> string list" where
  "requiresOf p = (case requires p of None \<Rightarrow> [] | Some rs \<Rightarrow> rs)"

definition conflictsOf :: "'s plugin \<Rightarrow> string list" where
  "conflictsOf p = (case conflicts p of None \<Rightarrow> [] | Some cs \<Rightarrow> cs)"

definition validateDependencies :: "'s plugin list \<Rightarrow> string option" where
  "validateDependencies activePlugins =
     (let activeNames = set (map name activePlugins) in
      firstError (\<lambda>p.
        firstError (\<lambda>required.
          let requiredName = requiredPlugin required in
          if requiredName \<notin> activeNames
          then Some (requiresError (name p) requiredName)
          else None) (requiresOf p)) activePlugins)"

definition checkConflicts :: "'s plugin list \<Rightarrow> string option" where
  "checkConflicts activePlugins =
     (let activeNames = set (map name activePlugins) in
      firstError (\<lambda>p.
        firstError (\<lambda>conflictName.
          if conflictName \<in> activeNames
          then Some (conflictError (name p) conflictName)
          else None) (conflictsOf p)) activePlugins)"

subsection \<open>Ordering\<close>

text \<open>
  \<^verbatim>\<open>Array.prototype.sort\<close> is stable, and both comparators are the difference of a
  numeric key, so each sort is the stable sort by that key: \<open>sort_key\<close>, the stable
  insertion sort of the list library. Descending order is ascending order of the
  negated priority.
\<close>

definition priorityOf :: "'s plugin \<Rightarrow> int" where
  "priorityOf p = (case priority p of None \<Rightarrow> 50 | Some n \<Rightarrow> n)"

definition cleanupPriorityOf :: "'s plugin \<Rightarrow> int" where
  "cleanupPriorityOf p = (case cleanupPriority p of None \<Rightarrow> priorityOf p | Some n \<Rightarrow> n)"

definition sortByPriority :: "'s plugin list \<Rightarrow> 's plugin list" where
  "sortByPriority plugins = sort_key (\<lambda>p. - priorityOf p) plugins"

definition getCleanupOrder :: "'s plugin list \<Rightarrow> 's plugin list" where
  "getCleanupOrder plugins = sort_key cleanupPriorityOf (sortByPriority plugins)"

subsection \<open>Phase 1: setupPlugins\<close>

text \<open>
  The result of \<^verbatim>\<open>setupPlugins\<close>, with what a spy on the setup functions sees:
  \<open>setupCalls\<close> lists the plugins whose setup was invoked, in order; \<open>sharedData\<close>
  is the context's shared data afterwards; \<open>outcome\<close> is the thrown error or the
  returned systems (a \<^verbatim>\<open>Map\<close>, in insertion order) and sorted plugins.
\<close>

record 's setup_result =
  setupCalls :: "string list"
  sharedData :: "string \<rightharpoonup> 's"
  outcome :: "string + ((string \<times> 's) list \<times> 's plugin list)"

fun systems_set :: "string \<Rightarrow> 's \<Rightarrow> (string \<times> 's) list \<Rightarrow> (string \<times> 's) list" where
  "systems_set k v [] = [(k, v)]"
| "systems_set k v ((k', v') # kvs) =
     (if k' = k then (k, v) # kvs else (k', v') # systems_set k v kvs)"

fun setupEach ::
  "options \<Rightarrow> 's plugin list \<Rightarrow> string list \<Rightarrow> (string \<rightharpoonup> 's) \<Rightarrow> (string \<times> 's) list
     \<Rightarrow> string list \<times> (string \<rightharpoonup> 's) \<times> (string + (string \<times> 's) list)" where
  "setupEach opts [] calls sd systems = (calls, sd, Inr systems)"
| "setupEach opts (p # ps) calls sd systems =
     (case setupFn p sd (extractPluginOptions p opts) of
        Inl (err, sd') \<Rightarrow> (calls @ [name p], sd', Inl err)
      | Inr (system, sd') \<Rightarrow>
          setupEach opts ps (calls @ [name p])
            (sd'(name p @ ''.system'' \<mapsto> system))
            (systems_set (name p) system systems))"

definition setupPlugins :: "(string \<rightharpoonup> 's) \<Rightarrow> 's registry \<Rightarrow> options \<Rightarrow> 's setup_result" where
  "setupPlugins sd reg opts =
     (let activePlugins = getActivePlugins reg opts in
      (case validateDependencies activePlugins of
         Some err \<Rightarrow> \<lparr>setupCalls = [], sharedData = sd, outcome = Inl err\<rparr>
       | None \<Rightarrow>
          (case checkConflicts activePlugins of
             Some err \<Rightarrow> \<lparr>setupCalls = [], sharedData = sd, outcome = Inl err\<rparr>
           | None \<Rightarrow>
              (let sortedPlugins = sortByPriority activePlugins in
               (case setupEach opts sortedPlugins [] sd [] of
                  (calls, sd', res) \<Rightarrow>
                    \<lparr>setupCalls = calls, sharedData = sd',
                     outcome = (case res of Inl err \<Rightarrow> Inl err
                                | Inr systems \<Rightarrow> Inr (systems, sortedPlugins))\<rparr>)))))"

section \<open>Stagger delays (src/src/staggerDelays.ts)\<close>

text \<open>
  \<^verbatim>\<open>UseAnimationStaggerOptions\<close>, with the fields \<^verbatim>\<open>calculateStaggerDelays\<close> reads. The
  field \<^verbatim>\<open>from\<close> is \<open>staggerFrom\<close> here. JavaScript numbers are modelled as real
  numbers (no rounding, no NaN): the element count, the indices and the grid sizes are
  natural numbers, a delay is a real. With zero grid columns the source computes NaN;
  the model is meant for a grid with at least one column.
\<close>

datatype stagger_from = Start | End | Center

record stagger_options =
  delay :: real
  staggerFrom :: "stagger_from option"
  ease :: "string option"
  grid :: "(nat \<times> nat) option"

text \<open>The defaults of the destructuring: \<^verbatim>\<open>from = 'start', ease = 'linear'\<close>.\<close>

definition fromOf :: "stagger_options \<Rightarrow> stagger_from" where
  "fromOf opts = (case staggerFrom opts of None \<Rightarrow> Start | Some f \<Rightarrow> f)"

definition easeOf :: "stagger_options \<Rightarrow> string" where
  "easeOf opts = (case ease opts of None \<Rightarrow> ''linear'' | Some e \<Rightarrow> e)"

text \<open>The body of the loop over a 2D grid: the delay of element \<open>i\<close>.\<close>

definition gridDelay :: "stagger_options \<Rightarrow> nat \<Rightarrow> nat \<Rightarrow> nat \<Rightarrow> real" where
  "gridDelay opts cols rows i =
     (let col = i mod cols;
          row = i div cols;
          distance =
            (if fromOf opts = Center
             then sqrt ((real col - real cols / 2)\<^sup>2 + (real row - real rows / 2)\<^sup>2)
             else if fromOf opts = End
             then (real cols - real col) + (real rows - real row)
             else real col + real row)
      in distance * delay opts)"

text \<open>The body of the 1D loop: the delay of element \<open>i\<close> among \<open>cnt\<close> (the source's \<^verbatim>\<open>count\<close>).\<close>

definition linearDelay :: "stagger_options \<Rightarrow> nat \<Rightarrow> nat \<Rightarrow> real" where
  "linearDelay opts cnt i =
     (let position =
            (if fromOf opts = Start then real i
             else if fromOf opts = End then real cnt - 1 - real i
             else \<bar>real i - real cnt / 2\<bar>);
          normalizedDelay = position * delay opts
      in if easeOf opts \<noteq> ''linear''
         then (let t = position / (if real cnt - 1 = 0 then 1 else real cnt - 1);
                   easedT =
                     (if easeOf opts = ''ease-in'' then t * t
                      else if easeOf opts = ''ease-out'' then 1 - (1 - t)\<^sup>2
                      else if prefix ''cubic-bezier'' (easeOf opts) then t
                      else t)
               in easedT * delay opts * real cnt)
         else normalizedDelay)"

definition calculateStaggerDelays :: "nat \<Rightarrow> stagger_options \<Rightarrow> real list" where
  "calculateStaggerDelays cnt opts =
     (case grid opts of
        Some (cols, rows) \<Rightarrow> map (gridDelay opts cols rows) [0..<cnt]
      | None \<Rightarrow> map (linearDelay opts cnt) [0..<cnt])"

section \<open>Orchestrator session (src/src/useAnimation.ts)\<close>

text \<open>
  The two flags of a session, \<^verbatim>\<open>isPlaying\<close> and \<^verbatim>\<open>isPaused\<close>, are refs of the context,
  which every plugin holds: a plugin system may write them in any of its methods (the
  \<^verbatim>\<open>play()\<close> of the CSS animation system clears both when animation is not allowed, the
  timeline system sets \<^verbatim>\<open>isPlaying\<close> in \<^verbatim>\<open>play()\<close> and \<^verbatim>\<open>isPaused\<close> in \<^verbatim>\<open>pause()\<close>).
  A plugin system is its name and its optional lifecycle methods; a method is given by
  what it makes of the flags, as a function of the flags at the moment it is called.
  Whatever else a method does inside its plugin is not modelled; that it was called is
  recorded in the session's log. A method of a plugin system and a lifecycle hook are
  taken to return normally (a hook that throws is caught by \<^verbatim>\<open>safeCall\<close>). A lifecycle
  hook is code of the caller: that it was called is recorded, and it is taken to leave
  the session alone.
\<close>

type_synonym flags = "bool \<times> bool"

record plugin_system =
  systemName :: string
  playMethod :: "(flags \<Rightarrow> flags) option"
  pauseMethod :: "(flags \<Rightarrow> flags) option"
  stopMethod :: "(flags \<Rightarrow> flags) option"
  resumeMethod :: "(flags \<Rightarrow> flags) option"
  cleanupMethod :: "(flags \<Rightarrow> flags) option"

datatype hook = BeforePlay | OnStart | AfterPlay | BeforePause | AfterPause
  | BeforeStop | AfterStop | OnStop | BeforeResume | AfterResume

datatype effect =
    HookCalled hook
  | SystemPlay string
  | SystemPause string
  | SystemStop string
  | SystemResume string
  | SystemCleanup string
  | WatcherStopped string
  | HandlerCalled string
  | StateCacheDeleted string
  | StateCacheCheckDeferred string

datatype reason = Manual | Auto

datatype override = OverridePlay | OverrideStop

text \<open>
  The state one call of \<^verbatim>\<open>useAnimation\<close> closes over. \<open>isPlaying\<close> and \<open>isPaused\<close>
  are the values of the two refs; \<open>manualOverride\<close> is the local variable
  \<^verbatim>\<open>'play' | 'stop' | null\<close>, which no plugin and no hook can reach; \<open>playWhen\<close> is the
  current value of \<^verbatim>\<open>options.playWhen\<close> (\<open>None\<close> when the option is undefined); \<open>hooks\<close>
  lists the lifecycle callbacks the options define; \<open>systemsArray\<close> is
  \<^verbatim>\<open>Array.from(systems.values())\<close>; \<open>stateConsumers\<close> is the module-level map of
  src/src/context.ts from a state name to the consumers registered under it.
  \<^verbatim>\<open>runPlay\<close> is an async function: \<open>playsAwaitingHook\<close> counts its calls that are
  suspended at \<^verbatim>\<open>await safeCallAsync(beforePlay)\<close>, \<open>playsAwaitingSystems\<close> those
  suspended at \<^verbatim>\<open>await Promise.all(...)\<close>. \<open>effects\<close> records, in order, every call
  the session has made to a hook, a plugin system, a watcher's stop handle or a cleanup
  handler.
\<close>

record session =
  isPlaying :: bool
  isPaused :: bool
  manualOverride :: "override option"
  playWhen :: "bool option"
  hooks :: "hook list"
  systemsArray :: "plugin_system list"
  pluginWatchers :: "string list"
  localWatchers :: "string list"
  cleanupHandlers :: "string list"
  stateName :: "string option"
  consumerId :: nat
  stateConsumers :: "string \<rightharpoonup> nat set"
  playsAwaitingHook :: nat
  playsAwaitingSystems :: nat
  effects :: "effect list"

definition emit :: "effect list \<Rightarrow> session \<Rightarrow> session" where
  "emit es s = s\<lparr>effects := effects s @ es\<rparr>"

text \<open>\<^verbatim>\<open>safeCall\<close> and \<^verbatim>\<open>safeCallAsync\<close>: nothing happens when the hook is undefined.\<close>

definition safeCall :: "hook \<Rightarrow> session \<Rightarrow> session" where
  "safeCall h s = (if h \<in> set (hooks s) then emit [HookCalled h] s else s)"

text \<open>The systems that expose a method, as computed once after the setup.\<close>

definition playableSystems :: "session \<Rightarrow> plugin_system list" where
  "playableSystems s = filter (\<lambda>sys. playMethod sys \<noteq> None) (systemsArray s)"

definition pausableSystems :: "session \<Rightarrow> plugin_system list" where
  "pausableSystems s = filter (\<lambda>sys. pauseMethod sys \<noteq> None) (systemsArray s)"

definition stoppableSystems :: "session \<Rightarrow> plugin_system list" where
  "stoppableSystems s = filter (\<lambda>sys. stopMethod sys \<noteq> None) (systemsArray s)"

definition resumableSystems :: "session \<Rightarrow> plugin_system list" where
  "resumableSystems s = filter (\<lambda>sys. resumeMethod sys \<noteq> None) (systemsArray s)"

definition cleanableSystems :: "session \<Rightarrow> plugin_system list" where
  "cleanableSystems s = filter (\<lambda>sys. cleanupMethod sys \<noteq> None) (systemsArray s)"

text \<open>
  Calling one method on each system of a list, in order: the call is recorded, and the
  flags become what the method makes of them.
\<close>

fun callEach ::
  "(plugin_system \<Rightarrow> (flags \<Rightarrow> flags) option) \<Rightarrow> (string \<Rightarrow> effect) \<Rightarrow> plugin_system list
     \<Rightarrow> session \<Rightarrow> session" where
  "callEach method called [] s = s"
| "callEach method called (sys # syss) s =
     (case method sys of
        None \<Rightarrow> callEach method called syss s
      | Some f \<Rightarrow>
          callEach method called syss
            ((emit [called (systemName sys)] s)
               \<lparr>isPlaying := fst (f (isPlaying s, isPaused s)),
                isPaused := snd (f (isPlaying s, isPaused s))\<rparr>))"

text \<open>
  \<^verbatim>\<open>runPlay\<close> up to its first \<^verbatim>\<open>await\<close>: the override and both flags are written, and
  \<^verbatim>\<open>safeCallAsync\<close> calls the \<^verbatim>\<open>beforePlay\<close> hook before it suspends.
\<close>

definition runPlay :: "reason \<Rightarrow> session \<Rightarrow> session" where
  "runPlay reason s =
     (if reason = Auto \<and> manualOverride s = Some OverrideStop then s
      else if isPlaying s then s
      else
        (let s1 = (if reason = Manual then s\<lparr>manualOverride := Some OverridePlay\<rparr> else s);
             s2 = s1\<lparr>isPlaying := True, isPaused := False\<rparr>;
             s3 = safeCall BeforePlay s2
         in s3\<lparr>playsAwaitingHook := Suc (playsAwaitingHook s3)\<rparr>))"

text \<open>
  \<^verbatim>\<open>runPlay\<close> from its first \<^verbatim>\<open>await\<close> to its second, for one suspended call: the
  \<^verbatim>\<open>onStart\<close> callback, then \<^verbatim>\<open>play()\<close> of every playable system. Nothing is checked
  again: whatever has happened to the session since the call began, the systems are
  started.
\<close>

definition runPlayContinued :: "session \<Rightarrow> session" where
  "runPlayContinued s =
     (if playsAwaitingHook s = 0 then s
      else
        (let s1 = s\<lparr>playsAwaitingHook := playsAwaitingHook s - 1\<rparr>;
             s2 = safeCall OnStart s1;
             s3 = callEach playMethod SystemPlay (playableSystems s2) s2
         in s3\<lparr>playsAwaitingSystems := Suc (playsAwaitingSystems s3)\<rparr>))"

text \<open>
  \<^verbatim>\<open>runPlay\<close> after its second \<^verbatim>\<open>await\<close>, for one suspended call whose systems have all
  resolved: the \<^verbatim>\<open>afterPlay\<close> hook.
\<close>

definition runPlayFinished :: "session \<Rightarrow> session" where
  "runPlayFinished s =
     (if playsAwaitingSystems s = 0 then s
      else safeCall AfterPlay (s\<lparr>playsAwaitingSystems := playsAwaitingSystems s - 1\<rparr>))"

definition play :: "session \<Rightarrow> session" where
  "play s = runPlay Manual s"

definition pause :: "session \<Rightarrow> session" where
  "pause s =
     (if \<not> isPlaying s \<or> isPaused s then s
      else
        (let s1 = safeCall BeforePause s;
             s2 = callEach pauseMethod SystemPause (pausableSystems s1) s1;
             s3 = s2\<lparr>isPaused := True\<rparr>
         in safeCall AfterPause s3))"

definition stop :: "reason \<Rightarrow> session \<Rightarrow> session" where
  "stop reason s =
     (if reason = Auto \<and> manualOverride s = Some OverridePlay then s
      else if \<not> isPlaying s \<and> \<not> isPaused s then s
      else
        (let s1 = (if reason = Manual then s\<lparr>manualOverride := Some OverrideStop\<rparr> else s);
             s2 = safeCall BeforeStop s1;
             s3 = callEach stopMethod SystemStop (stoppableSystems s2) s2;
             s4 = s3\<lparr>isPlaying := False, isPaused := False\<rparr>;
             s5 = safeCall AfterStop s4
         in safeCall OnStop s5))"

definition resume :: "session \<Rightarrow> session" where
  "resume s =
     (if \<not> isPaused s then s
      else
        (let s1 = safeCall BeforeResume s;
             s2 = callEach resumeMethod SystemResume (resumableSystems s1) s1;
             s3 = s2\<lparr>isPaused := False\<rparr>
         in safeCall AfterResume s3))"

text \<open>The callbacks stored for the plugins under \<^verbatim>\<open>orchestrator.play\<close> and \<^verbatim>\<open>orchestrator.stop\<close>.\<close>

definition playAuto :: "session \<Rightarrow> session" where
  "playAuto s =
     (case playWhen s of
        None \<Rightarrow> runPlay Auto s
      | Some v \<Rightarrow> if \<not> v then s else runPlay Auto s)"

definition stopAuto :: "session \<Rightarrow> session" where
  "stopAuto s = stop Auto s"

text \<open>
  The callback of the \<^verbatim>\<open>playWhen\<close> watcher, run when the watched value becomes
  \<open>shouldPlay\<close>.
\<close>

definition playWhenChanged :: "bool \<Rightarrow> session \<Rightarrow> session" where
  "playWhenChanged shouldPlay s =
     (let s1 = s\<lparr>playWhen := Some shouldPlay, manualOverride := None\<rparr>
      in if shouldPlay
         then (if \<not> isPlaying s1 \<and> \<not> isPaused s1 then runPlay Auto s1 else s1)
         else (if isPlaying s1 then stop Auto s1 else s1))"

text \<open>
  \<^verbatim>\<open>cleanupSharedState\<close> of src/src/context.ts, called with the consumers left under
  the state name: with none left the caches and the entry are deleted at once, otherwise
  the check is put off to the next tick.
\<close>

definition cleanupSharedState :: "string \<Rightarrow> nat set \<Rightarrow> session \<Rightarrow> session" where
  "cleanupSharedState n consumers s =
     (if consumers = {}
      then emit [StateCacheDeleted n] (s\<lparr>stateConsumers := (stateConsumers s)(n := None)\<rparr>)
      else emit [StateCacheCheckDeferred n] s)"

definition cleanup :: "session \<Rightarrow> session" where
  "cleanup s =
     (let s1 = s\<lparr>isPlaying := False, isPaused := False\<rparr>;
          s2 = emit (map WatcherStopped (pluginWatchers s1)) s1;
          s3 = emit (map WatcherStopped (localWatchers s2)) s2;
          s4 = callEach cleanupMethod SystemCleanup (cleanableSystems s3) s3;
          s5 = emit (map HandlerCalled (cleanupHandlers s4)) s4;
          s6 = s5\<lparr>cleanupHandlers := []\<rparr>
      in case stateName s6 of
           None \<Rightarrow> s6
         | Some n \<Rightarrow>
             (case stateConsumers s6 n of
                None \<Rightarrow> s6
              | Some consumers \<Rightarrow>
                  (let consumers' = consumers - {consumerId s6};
                       s7 = s6\<lparr>stateConsumers := (stateConsumers s6)(n \<mapsto> consumers')\<rparr>
                   in cleanupSharedState n consumers' s7)))"

text \<open>How often the session has called the cleanup of the plugin system \<open>n\<close>.\<close>

definition cleanupCalls :: "string \<Rightarrow> session \<Rightarrow> nat" where
  "cleanupCalls n s = length (filter (\<lambda>e. e = SystemCleanup n) (effects s))"

text \<open>
  What can happen to a session besides an explicit \<^verbatim>\<open>play()\<close> or \<^verbatim>\<open>stop()\<close> and a
  change of \<^verbatim>\<open>playWhen\<close>: an automatic play or stop (a plugin calls \<^verbatim>\<open>orchestrator.play\<close>
  or \<^verbatim>\<open>orchestrator.stop\<close>), a pause or a resume, a suspended \<^verbatim>\<open>runPlay\<close> going on, and
  a write to the flags from outside the session's own functions: by a plugin system in
  one of its frame callbacks, or, the flag \<^verbatim>\<open>isPlaying\<close> being a field of the state
  object that all sessions of one \<^verbatim>\<open>stateName\<close> share, by another session.
\<close>

datatype trigger = AutoPlay | AutoStop | Pause | Resume
  | PlayContinues | PlayFinishes | FlagsWritten bool bool

fun fire_trigger :: "trigger \<Rightarrow> session \<Rightarrow> session" where
  "fire_trigger AutoPlay s = playAuto s"
| "fire_trigger AutoStop s = stopAuto s"
| "fire_trigger Pause s = pause s"
| "fire_trigger Resume s = resume s"
| "fire_trigger PlayContinues s = runPlayContinued s"
| "fire_trigger PlayFinishes s = runPlayFinished s"
| "fire_trigger (FlagsWritten playing paused) s = s\<lparr>isPlaying := playing, isPaused := paused\<rparr>"

fun fire_triggers :: "trigger list \<Rightarrow> session \<Rightarrow> session" where
  "fire_triggers [] s = s"
| "fire_triggers (e # es) s = fire_triggers es (fire_trigger e s)"

text \<open>The triggers of automatic origin.\<close>

fun automatic :: "trigger \<Rightarrow> bool" where
  "automatic AutoPlay = True"
| "automatic AutoStop = True"
| "automatic _ = False"

section \<open>Shared clock (class RafCoordinator, in src/tsup.config.ts)\<close>

text \<open>
  A frame callback is a function of the timestamp that may call the coordinator again
  (a timer's \<^verbatim>\<open>pause()\<close> is \<^verbatim>\<open>coordinator.remove\<close>, its \<^verbatim>\<open>resume()\<close> is
  \<^verbatim>\<open>coordinator.add\<close>) and that may throw. The model of a callback is a label, which
  stands for the function, and what it does when invoked, in order: subscribe a callback
  (again such a callback), unsubscribe a symbol, or throw, which ends the invocation.
\<close>

datatype action = Subscribe callback | Unsubscribe nat | Throw
  and callback = Callback nat "action list"

text \<open>The number of callbacks a callback can ever subscribe, itself included.\<close>

primrec weight :: "callback \<Rightarrow> nat" and actionWeight :: "action \<Rightarrow> nat" where
  "weight (Callback l acts) = Suc (sum_list (map actionWeight acts))"
| "actionWeight (Subscribe cb) = weight cb"
| "actionWeight (Unsubscribe i) = 0"
| "actionWeight Throw = 0"

text \<open>
  The coordinator and the host's frame scheduler. \<open>callbacks\<close> is the \<^verbatim>\<open>Map\<close> from
  subscription symbols to callbacks as ECMAScript defines it: a list of entries in
  insertion order, where deleting a key leaves an empty entry (\<open>None\<close>) behind and
  \<^verbatim>\<open>forEach\<close> walks the list by index, reading its length again after every call. Every
  subscription makes a fresh symbol, which is a new entry at the end of the list; the
  model names the symbol by the index of its entry. \<open>rafId\<close> is the field of the class.
  \<open>pending\<close> holds the handles of the frame requests that are outstanding (requested,
  neither run nor cancelled), \<open>nextHandle\<close> is the handle the next request gets, and
  \<open>invoked\<close> records every invocation of a callback: the symbol of the subscription,
  the label of the callback and the timestamp it was given.
\<close>

record coordinator =
  callbacks :: "callback option list"
  rafId :: "nat option"
  pending :: "nat list"
  nextHandle :: nat
  invoked :: "(nat \<times> nat \<times> real) list"

definition size_callbacks :: "coordinator \<Rightarrow> nat" where
  "size_callbacks s = length (filter (\<lambda>e. e \<noteq> None) (callbacks s))"

definition has :: "nat \<Rightarrow> coordinator \<Rightarrow> bool" where
  "has i s \<longleftrightarrow> i < length (callbacks s) \<and> callbacks s ! i \<noteq> None"

text \<open>\<^verbatim>\<open>raf(step)\<close> and \<^verbatim>\<open>caf(id)\<close> of the host.\<close>

definition raf :: "coordinator \<Rightarrow> nat \<times> coordinator" where
  "raf s = (nextHandle s, s\<lparr>pending := pending s @ [nextHandle s], nextHandle := Suc (nextHandle s)\<rparr>)"

definition caf :: "nat \<Rightarrow> coordinator \<Rightarrow> coordinator" where
  "caf h s = s\<lparr>pending := removeAll h (pending s)\<rparr>"

definition ensureLoop :: "coordinator \<Rightarrow> coordinator" where
  "ensureLoop s =
     (if rafId s \<noteq> None then s
      else (let (h, s1) = raf s in s1\<lparr>rafId := Some h\<rparr>))"

definition add :: "callback \<Rightarrow> coordinator \<Rightarrow> nat \<times> coordinator" where
  "add cb s =
     (let i = length (callbacks s);
          s1 = s\<lparr>callbacks := callbacks s @ [Some cb]\<rparr>
      in (i, ensureLoop s1))"

definition remove :: "nat \<Rightarrow> coordinator \<Rightarrow> coordinator" where
  "remove i s =
     (if \<not> has i s then s
      else
        (let s1 = s\<lparr>callbacks := (callbacks s)[i := None]\<rparr>
         in case rafId s1 of
              Some h \<Rightarrow> if size_callbacks s1 = 0 then (caf h s1)\<lparr>rafId := None\<rparr> else s1
            | None \<Rightarrow> s1))"

text \<open>
  Invoking the callback subscribed under the symbol \<open>i\<close>: the invocation is
  recorded, then the callback's calls are made until it returns or throws. The result
  says whether it threw, and gives the coordinator as the callback left it.
\<close>

fun perform :: "action list \<Rightarrow> coordinator \<Rightarrow> bool \<times> coordinator" where
  "perform [] s = (False, s)"
| "perform (Subscribe cb # acts) s = perform acts (snd (add cb s))"
| "perform (Unsubscribe i # acts) s = perform acts (remove i s)"
| "perform (Throw # acts) s = (True, s)"

fun invoke :: "nat \<Rightarrow> callback \<Rightarrow> real \<Rightarrow> coordinator \<Rightarrow> bool \<times> coordinator" where
  "invoke i (Callback l acts) t s = perform acts (s\<lparr>invoked := invoked s @ [(i, l, t)]\<rparr>)"

text \<open>
  \<^verbatim>\<open>this.callbacks.forEach(cb => cb(timestamp))\<close>, from entry \<open>index\<close> on: entries added
  by a callback lengthen the list that is being walked, and a callback that throws ends
  the walk, since nothing catches the exception.
\<close>

function forEach :: "nat \<Rightarrow> real \<Rightarrow> coordinator \<Rightarrow> bool \<times> coordinator" where
  "forEach index t s =
     (if index < length (callbacks s)
      then (case callbacks s ! index of
              None \<Rightarrow> forEach (Suc index) t s
            | Some cb \<Rightarrow>
                if fst (invoke index cb t s) then invoke index cb t s
                else forEach (Suc index) t (snd (invoke index cb t s)))
      else (False, s))"
  by pat_completeness auto

text \<open>
  The closure \<^verbatim>\<open>step\<close> of \<^verbatim>\<open>ensureLoop\<close>. When a callback throws, the exception leaves
  \<^verbatim>\<open>step\<close> before the next frame is requested: \<open>rafId\<close> keeps the handle of the request
  that has just run.
\<close>

definition step :: "real \<Rightarrow> coordinator \<Rightarrow> bool \<times> coordinator" where
  "step timestamp s =
     (let (thrown, s1) = forEach 0 timestamp s
      in if thrown then (True, s1)
         else if size_callbacks s1 > 0
         then (let (h, s2) = raf s1 in (False, s2\<lparr>rafId := Some h\<rparr>))
         else (False, s1\<lparr>rafId := None\<rparr>))"

text \<open>
  The host runs the outstanding frame request \<open>h\<close> with a timestamp: the request is
  no longer outstanding, and \<^verbatim>\<open>step\<close> runs; an exception of \<^verbatim>\<open>step\<close> ends in the host.
\<close>

definition frame :: "nat \<Rightarrow> real \<Rightarrow> coordinator \<Rightarrow> coordinator" where
  "frame h timestamp s =
     (if h \<in> set (pending s)
      then snd (step timestamp (s\<lparr>pending := removeAll h (pending s)\<rparr>))
      else s)"

definition initial :: coordinator where
  "initial = \<lparr>callbacks = [], rafId = None, pending = [], nextHandle = 0, invoked = []\<rparr>"

text \<open>The weight of the entries that \<^verbatim>\<open>forEach\<close> has still to visit.\<close>

definition entryWeight :: "callback option \<Rightarrow> nat" where
  "entryWeight e = (case e of None \<Rightarrow> 0 | Some cb \<Rightarrow> weight cb)"

definition remaining :: "nat \<Rightarrow> coordinator \<Rightarrow> nat" where
  "remaining index s = sum_list (map entryWeight (drop index (callbacks s)))"

section \<open>Auxiliary notions of the proofs\<close>

text \<open>
  A plugin whose required keys are cut off at the first dot; everything else is kept.
\<close>

definition stripSuffixes :: "'s plugin \<Rightarrow> 's plugin" where
  "stripSuffixes p = p\<lparr>requires := map_option (map requiredPlugin) (requires p)\<rparr>"

text \<open>
  What the calls of a callback can do to the coordinator: entries are only added at the
  end or emptied, and the record of invocations only grows.
\<close>

definition keeps :: "coordinator \<Rightarrow> coordinator \<Rightarrow> bool" where
  "keeps s s' \<longleftrightarrow>
     length (callbacks s) \<le> length (callbacks s')
     \<and> (\<forall>j < length (callbacks s). callbacks s' ! j = callbacks s ! j \<or> callbacks s' ! j = None)
     \<and> prefix (invoked s) (invoked s')"

text \<open>
  The walk of \<^verbatim>\<open>forEach\<close> from entry \<open>index\<close> up to, and without, entry \<open>bound\<close>:
  its result is the coordinator as it is when the walk reaches entry \<open>bound\<close>, and
  whether a callback has thrown before.
\<close>

function walkTo :: "nat \<Rightarrow> nat \<Rightarrow> real \<Rightarrow> coordinator \<Rightarrow> bool \<times> coordinator" where
  "walkTo bound index t s =
     (if index < bound \<and> index < length (callbacks s)
      then (case callbacks s ! index of
              None \<Rightarrow> walkTo bound (Suc index) t s
            | Some cb \<Rightarrow>
                if fst (invoke index cb t s) then invoke index cb t s
                else walkTo bound (Suc index) t (snd (invoke index cb t s)))
      else (False, s))"
  by pat_completeness auto

text \<open>The invocations that the tick at \<open>t\<close> adds to the record.\<close>

definition invokedInTick :: "real \<Rightarrow> coordinator \<Rightarrow> (nat \<times> nat \<times> real) list" where
  "invokedInTick t s = drop (length (invoked s)) (invoked (snd (step t s)))"

text \<open>
  The operations on the clock as they come from outside a tick: a subscription, an
  unsubscription, and the host running an outstanding frame request.
\<close>

datatype clock_op = Add callback | Remove nat | Frame nat real

fun apply_op :: "clock_op \<Rightarrow> coordinator \<Rightarrow> coordinator" where
  "apply_op (Add cb) s = snd (add cb s)"
| "apply_op (Remove i) s = remove i s"
| "apply_op (Frame h t) s = frame h t s"

fun apply_ops :: "clock_op list \<Rightarrow> coordinator \<Rightarrow> coordinator" where
  "apply_ops [] s = s"
| "apply_ops (x # xs) s = apply_ops xs (apply_op x s)"

text \<open>A callback that makes no call to the coordinator and does not throw.\<close>

fun passive_cb :: "callback \<Rightarrow> bool" where
  "passive_cb (Callback l acts) = (acts = [])"

fun passive_op :: "clock_op \<Rightarrow> bool" where
  "passive_op (Add cb) = passive_cb cb"
| "passive_op (Remove i) = True"
| "passive_op (Frame h t) = True"

text \<open>
  With a subscriber, the one outstanding request is the one \<open>rafId\<close> names; without,
  there is none.
\<close>

definition one_request :: "coordinator \<Rightarrow> bool" where
  "one_request s \<longleftrightarrow>
     (if 0 < size_callbacks s
      then rafId s \<noteq> None \<and> pending s = [the (rafId s)]
      else rafId s = None \<and> pending s = [])"

definition all_passive :: "coordinator \<Rightarrow> bool" where
  "all_passive s \<longleftrightarrow> list_all (\<lambda>e. case e of None \<Rightarrow> True | Some cb \<Rightarrow> passive_cb cb) (callbacks s)"

section \<open>Example inputs\<close>

definition examplePlugin :: "string \<Rightarrow> unit plugin" where
  "examplePlugin n = \<lparr>name = n, version = ''1.0.0'', setupFn = (\<lambda>sd v. Inr ((), sd)),
     shouldActivate = None, optionsKey = None, cleanupPriority = None, requires = None,
     conflicts = None, priority = None\<rparr>"

text \<open>A plugin system with all five methods, none of which writes the flags.\<close>

definition exampleSystem :: "string \<Rightarrow> plugin_system" where
  "exampleSystem n = \<lparr>systemName = n, playMethod = Some id, pauseMethod = Some id,
     stopMethod = Some id, resumeMethod = Some id, cleanupMethod = Some id\<rparr>"

definition exampleSession :: session where
  "exampleSession = \<lparr>isPlaying = False, isPaused = False, manualOverride = None,
     playWhen = None, hooks = [BeforePlay, AfterStop], systemsArray = [exampleSystem ''stagger''],
     pluginWatchers = [''autoplay''], localWatchers = [''environment''],
     cleanupHandlers = [''unsubscribe''], stateName = None, consumerId = 0,
     stateConsumers = Map.empty, playsAwaitingHook = 0, playsAwaitingSystems = 0,
     effects = []\<rparr>"

text \<open>
  The system of the CSS animation plugin (src/src/plugins/cssAnimationPlugin.ts) on a
  mounted element where animation is not allowed (\<^verbatim>\<open>canAnimate\<close> is false): \<^verbatim>\<open>play()\<close>
  clears both flags and returns; \<^verbatim>\<open>pause()\<close> sets \<^verbatim>\<open>isPaused\<close> when playing;
  \<^verbatim>\<open>resume()\<close> clears \<^verbatim>\<open>isPaused\<close> when paused and playing; \<^verbatim>\<open>stop()\<close>, and
  \<^verbatim>\<open>cleanup()\<close> through it, clear both flags.
\<close>

definition cssAnimationSystem :: plugin_system where
  "cssAnimationSystem = \<lparr>systemName = ''cssAnimation'',
     playMethod = Some (\<lambda>_. (False, False)),
     pauseMethod = Some (\<lambda>(playing, paused). (playing, if playing then True else paused)),
     stopMethod = Some (\<lambda>_. (False, False)),
     resumeMethod = Some (\<lambda>(playing, paused). (playing, if paused \<and> playing then False else paused)),
     cleanupMethod = Some (\<lambda>_. (False, False))\<rparr>"

definition cssAnimationSession :: session where
  "cssAnimationSession = exampleSession\<lparr>systemsArray := [cssAnimationSystem]\<rparr>"

section \<open>Termination of the walk over the callbacks\<close>

lemma callbacks_ensureLoop [simp]: "callbacks (ensureLoop s) = callbacks s"
  by (simp add: ensureLoop_def raf_def split: prod.splits)

lemma callbacks_add [simp]: "callbacks (snd (add cb s)) = callbacks s @ [Some cb]"
  by (simp add: add_def Let_def)

lemma callbacks_remove:
  "callbacks (remove i s) = (if has i s then (callbacks s)[i := None] else callbacks s)"
  by (simp add: remove_def Let_def caf_def split: option.splits)

lemma sum_entryWeight_update_None:
  "sum_list (map entryWeight (drop n (xs[i := None]))) \<le> sum_list (map entryWeight (drop n xs))"
proof (induction xs arbitrary: n i)
  case Nil
  then show ?case by simp
next
  case (Cons x xs)
  show ?case
  proof (cases n)
    case 0
    then show ?thesis
      using Cons.IH [of 0] by (cases i) (auto simp: entryWeight_def)
  next
    case (Suc m)
    then show ?thesis
      using Cons.IH [of m] by (cases i) auto
  qed
qed

lemma remaining_remove: "remaining n (remove i s) \<le> remaining n s"
  by (simp add: remaining_def callbacks_remove sum_entryWeight_update_None)

lemma remaining_add:
  "n \<le> length (callbacks s) \<Longrightarrow> remaining n (snd (add cb s)) = remaining n s + weight cb"
  by (simp add: remaining_def entryWeight_def)

lemma length_callbacks_remove [simp]: "length (callbacks (remove i s)) = length (callbacks s)"
  by (simp add: callbacks_remove)

lemma remaining_perform:
  "n \<le> length (callbacks s) \<Longrightarrow>
     remaining n (snd (perform acts s)) \<le> remaining n s + sum_list (map actionWeight acts)"
proof (induction acts arbitrary: s)
  case Nil
  then show ?case by simp
next
  case (Cons a acts)
  show ?case
  proof (cases a)
    case (Subscribe cb)
    have "remaining n (snd (perform acts (snd (add cb s))))
        \<le> remaining n (snd (add cb s)) + sum_list (map actionWeight acts)"
      using Cons.prems by (intro Cons.IH) simp
    with Cons.prems Subscribe show ?thesis
      by (simp add: remaining_add)
  next
    case (Unsubscribe i)
    have "remaining n (snd (perform acts (remove i s)))
        \<le> remaining n (remove i s) + sum_list (map actionWeight acts)"
      using Cons.prems by (intro Cons.IH) simp
    with remaining_remove [of n i s] Unsubscribe show ?thesis
      by simp
  next
    case Throw
    then show ?thesis
      by simp
  qed
qed

lemma remaining_invoke:
  assumes "index < length (callbacks s)" and "callbacks s ! index = Some cb"
  shows "remaining (Suc index) (snd (invoke index cb t s)) < remaining index s"
proof -
  obtain l acts where cb: "cb = Callback l acts"
    by (cases cb)
  let ?s = "s\<lparr>invoked := invoked s @ [(index, l, t)]\<rparr>"
  have "remaining (Suc index) (snd (perform acts ?s))
      \<le> remaining (Suc index) ?s + sum_list (map actionWeight acts)"
    using assms(1) by (intro remaining_perform) simp
  moreover have "remaining index s = weight cb + remaining (Suc index) ?s"
    using assms by (simp add: remaining_def entryWeight_def Cons_nth_drop_Suc [symmetric])
  ultimately show ?thesis
    by (simp add: cb)
qed

lemma remaining_skip: "remaining (Suc index) s \<le> remaining index s"
proof (cases "index < length (callbacks s)")
  case True
  then show ?thesis
    by (simp add: remaining_def Cons_nth_drop_Suc [symmetric])
next
  case False
  then show ?thesis
    by (simp add: remaining_def)
qed

termination forEach
proof (relation "measures [\<lambda>(index, t, s). remaining index s,
                            \<lambda>(index, t, s). length (callbacks s) - index]")
  show "wf (measures [\<lambda>(index, t, s). remaining index s,
                       \<lambda>(index, t, s). length (callbacks s) - index])"
    by simp
next
  fix index :: nat and t :: real and s :: coordinator
  assume "index < length (callbacks s)" "callbacks s ! index = None"
  then show "((Suc index, t, s), (index, t, s))
      \<in> measures [\<lambda>(index, t, s). remaining index s,
                   \<lambda>(index, t, s). length (callbacks s) - index]"
    using remaining_skip [of index s] by auto
next
  fix index :: nat and t :: real and s :: coordinator and cb
  assume "index < length (callbacks s)" "callbacks s ! index = Some cb"
  then show "((Suc index, t, snd (invoke index cb t s)), (index, t, s))
      \<in> measures [\<lambda>(index, t, s). remaining index s,
                   \<lambda>(index, t, s). length (callbacks s) - index]"
    using remaining_invoke [of index s cb t] by simp
qed

termination walkTo
  by (relation "measure (\<lambda>(bound, index, t, s). bound - index)") auto

declare forEach.simps [simp del]

declare walkTo.simps [simp del]

section \<open>Properties of the registry\<close>

subsection \<open>Iterations that may throw\<close>

lemma firstError_Some:
  "x \<in> set xs \<Longrightarrow> f x \<noteq> None \<Longrightarrow> \<exists>y\<in>set xs. \<exists>e. f y = Some e \<and> firstError f xs = Some e"
  by (induction xs) (auto split: option.splits)

lemma firstError_None: "firstError f xs = None \<longleftrightarrow> (\<forall>x\<in>set xs. f x = None)"
  by (induction xs) (auto split: option.splits)

lemma firstError_cong:
  "(\<And>x. x \<in> set xs \<Longrightarrow> f x = g x) \<Longrightarrow> firstError f xs = firstError g xs"
  by (induction xs) (auto split: option.splits)

lemma firstError_map: "firstError f (map h xs) = firstError (\<lambda>x. f (h x)) xs"
  by (induction xs) (auto split: option.splits)

subsection \<open>The error messages name both plugins\<close>

lemma requiresError_names:
  "sublist a (requiresError a b) \<and> sublist b (requiresError a b)"
proof
  have "requiresError a b = (''Plugin '' @ [CHR 0x27]) @ a @
      ([CHR 0x27] @ '' requires '' @ [CHR 0x27] @ b @ [CHR 0x27]
       @ '' but it is not enabled. '' @ ''Add '' @ b @ '': {...} to your options.'')"
    by (simp add: requiresError_def)
  then show "sublist a (requiresError a b)"
    by (metis sublist_appendI)
  have "requiresError a b = (''Plugin '' @ [CHR 0x27] @ a @ [CHR 0x27] @ '' requires '' @ [CHR 0x27])
      @ b @ ([CHR 0x27] @ '' but it is not enabled. '' @ ''Add '' @ b @ '': {...} to your options.'')"
    by (simp add: requiresError_def)
  then show "sublist b (requiresError a b)"
    by (metis sublist_appendI)
qed

lemma conflictError_names:
  "sublist a (conflictError a b) \<and> sublist b (conflictError a b)"
proof
  have "conflictError a b = (''Plugin '' @ [CHR 0x27]) @ a @
      ([CHR 0x27] @ '' conflicts with '' @ [CHR 0x27] @ b @ [CHR 0x27] @ ''. ''
       @ ''You cannot use both plugins simultaneously.'')"
    by (simp add: conflictError_def)
  then show "sublist a (conflictError a b)"
    by (metis sublist_appendI)
  have "conflictError a b = (''Plugin '' @ [CHR 0x27] @ a @ [CHR 0x27] @ '' conflicts with '' @ [CHR 0x27])
      @ b @ ([CHR 0x27] @ ''. '' @ ''You cannot use both plugins simultaneously.'')"
    by (simp add: conflictError_def)
  then show "sublist b (conflictError a b)"
    by (metis sublist_appendI)
qed

subsection \<open>What the validations report\<close>

lemma validateDependencies_Some:
  assumes "p \<in> set active" and "r \<in> set (requiresOf p)"
      and "requiredPlugin r \<notin> name ` set active"
  shows "\<exists>q\<in>set active. \<exists>m \<in> requiredPlugin ` set (requiresOf q).
           m \<notin> name ` set active \<and> validateDependencies active = Some (requiresError (name q) m)"
proof -
  let ?inner = "\<lambda>p. firstError (\<lambda>required.
          let requiredName = requiredPlugin required in
          if requiredName \<notin> set (map name active)
          then Some (requiresError (name p) requiredName)
          else None) (requiresOf p)"
  from assms(2,3) have "?inner p \<noteq> None"
    by (auto simp: firstError_None Let_def)
  with assms(1) obtain q e where q: "q \<in> set active" "?inner q = Some e"
      "firstError ?inner active = Some e"
    using firstError_Some [of p active ?inner] by blast
  from q(2) have "?inner q \<noteq> None" by simp
  then obtain r' where r': "r' \<in> set (requiresOf q)" "requiredPlugin r' \<notin> name ` set active"
    by (auto simp: firstError_None Let_def split: if_splits)
  let ?g = "\<lambda>required.
          let requiredName = requiredPlugin required in
          if requiredName \<notin> set (map name active)
          then Some (requiresError (name q) requiredName)
          else None"
  from r' have "?g r' \<noteq> None" by (simp add: Let_def)
  with r'(1) obtain r'' e' where r'': "r'' \<in> set (requiresOf q)" "?g r'' = Some e'"
      "firstError ?g (requiresOf q) = Some e'"
    using firstError_Some [of r' "requiresOf q" ?g] by blast
  from r''(2) have "requiredPlugin r'' \<notin> name ` set active"
      and "e' = requiresError (name q) (requiredPlugin r'')"
    by (auto simp: Let_def split: if_splits)
  with q r'' show ?thesis
    by (auto simp: validateDependencies_def Let_def)
qed

lemma checkConflicts_Some:
  assumes "p \<in> set active" and "c \<in> set (conflictsOf p)" and "c \<in> name ` set active"
  shows "\<exists>q\<in>set active. \<exists>m \<in> set (conflictsOf q).
           m \<in> name ` set active \<and> checkConflicts active = Some (conflictError (name q) m)"
proof -
  let ?inner = "\<lambda>p. firstError (\<lambda>conflictName.
          if conflictName \<in> set (map name active)
          then Some (conflictError (name p) conflictName)
          else None) (conflictsOf p)"
  from assms(2,3) have "?inner p \<noteq> None"
    by (auto simp: firstError_None)
  with assms(1) obtain q e where q: "q \<in> set active" "?inner q = Some e"
      "firstError ?inner active = Some e"
    using firstError_Some [of p active ?inner] by blast
  from q(2) have "?inner q \<noteq> None" by simp
  then obtain c' where c': "c' \<in> set (conflictsOf q)" "c' \<in> name ` set active"
    by (auto simp: firstError_None split: if_splits)
  let ?g = "\<lambda>conflictName.
          if conflictName \<in> set (map name active)
          then Some (conflictError (name q) conflictName)
          else None"
  from c' have "?g c' \<noteq> None" by simp
  with c'(1) obtain c'' e' where c'': "c'' \<in> set (conflictsOf q)" "?g c'' = Some e'"
      "firstError ?g (conflictsOf q) = Some e'"
    using firstError_Some [of c' "conflictsOf q" ?g] by blast
  from c''(2) have "c'' \<in> name ` set active"
      and "e' = conflictError (name q) c''"
    by (auto split: if_splits)
  with q c'' show ?thesis
    by (auto simp: checkConflicts_def Let_def)
qed

lemma validateDependencies_None:
  "validateDependencies active = None \<longleftrightarrow>
     (\<forall>p\<in>set active. \<forall>r\<in>set (requiresOf p). requiredPlugin r \<in> name ` set active)"
  by (auto simp: validateDependencies_def firstError_None Let_def split: if_splits)

lemma checkConflicts_None:
  "checkConflicts active = None \<longleftrightarrow>
     (\<forall>p\<in>set active. \<forall>c\<in>set (conflictsOf p). c \<notin> name ` set active)"
  by (auto simp: checkConflicts_def firstError_None Let_def split: if_splits)

subsection \<open>Configuration errors come before any setup\<close>

text \<open>
  Claim C1. A required key names the plugin before its first dot (the key itself when it
  has no dot). Whenever some active plugin requires a plugin that is not active, or lists
  the name of an active plugin among its conflicts, \<^verbatim>\<open>setupPlugins\<close> throws: no setup
  function has been invoked (\<open>setupCalls\<close> is empty), the shared data is untouched, and
  the message of the error contains the name of an active plugin \<open>q\<close> and the name \<open>m\<close>
  that \<open>q\<close> requires in vain or conflicts with.
\<close>

theorem setupPlugins_configuration_error:
  assumes "p \<in> set (getActivePlugins reg opts)"
      and "(\<exists>r\<in>set (requiresOf p). requiredPlugin r \<notin> name ` set (getActivePlugins reg opts))
         \<or> (\<exists>c\<in>set (conflictsOf p). c \<in> name ` set (getActivePlugins reg opts))"
  shows "\<exists>q m msg. q \<in> set (getActivePlugins reg opts)
           \<and> (m \<in> requiredPlugin ` set (requiresOf q)
                \<and> m \<notin> name ` set (getActivePlugins reg opts)
              \<or> m \<in> set (conflictsOf q) \<and> m \<in> name ` set (getActivePlugins reg opts))
           \<and> setupPlugins sd reg opts = \<lparr>setupCalls = [], sharedData = sd, outcome = Inl msg\<rparr>
           \<and> sublist (name q) msg \<and> sublist m msg"
proof -
  define active where "active = getActivePlugins reg opts"
  show ?thesis
  proof (cases "validateDependencies active")
    case (Some e)
    then have "validateDependencies active \<noteq> None"
      by simp
    then obtain p' r' where "p' \<in> set active" "r' \<in> set (requiresOf p')"
        "requiredPlugin r' \<notin> name ` set active"
      unfolding validateDependencies_None by blast
    then obtain q m where q: "q \<in> set active" "m \<in> requiredPlugin ` set (requiresOf q)" "m \<notin> name ` set active"
        "validateDependencies active = Some (requiresError (name q) m)"
      using validateDependencies_Some [of p' active r'] by blast
    have "setupPlugins sd reg opts =
        \<lparr>setupCalls = [], sharedData = sd, outcome = Inl (requiresError (name q) m)\<rparr>"
      using q(4) by (simp add: setupPlugins_def active_def)
    with q(1,2,3) requiresError_names [of "name q" m] show ?thesis
      unfolding active_def by blast
  next
    case None
    then have "\<forall>q\<in>set active. \<forall>r\<in>set (requiresOf q). requiredPlugin r \<in> name ` set active"
      unfolding validateDependencies_None .
    with assms obtain c where "c \<in> set (conflictsOf p)" "c \<in> name ` set active"
      unfolding active_def by blast
    then obtain q m where q: "q \<in> set active" "m \<in> set (conflictsOf q)" "m \<in> name ` set active"
        "checkConflicts active = Some (conflictError (name q) m)"
      using checkConflicts_Some [of p active c] assms(1) unfolding active_def by blast
    have "setupPlugins sd reg opts =
        \<lparr>setupCalls = [], sharedData = sd, outcome = Inl (conflictError (name q) m)\<rparr>"
      using q(4) None by (simp add: setupPlugins_def active_def)
    with q(1,2,3) conflictError_names [of "name q" m] show ?thesis
      unfolding active_def by blast
  qed
qed

lemma active_example:
  "getActivePlugins
     [(examplePlugin ''stagger'')\<lparr>requires := Some [''responsive.scale'']\<rparr>,
      examplePlugin ''responsive'']
     [''stagger'' \<mapsto> Object]
   = [(examplePlugin ''stagger'')\<lparr>requires := Some [''responsive.scale'']\<rparr>]"
  by (simp add: getActivePlugins_def shouldActivateOf_def hasPluginOptions_def prop_get_def
        optionsKeyOf_def examplePlugin_def)

lemma active_conflict_example:
  "getActivePlugins
     [(examplePlugin ''cssAnimation'')\<lparr>conflicts := Some [''timeline'']\<rparr>,
      examplePlugin ''timeline'']
     [''cssAnimation'' \<mapsto> Object, ''timeline'' \<mapsto> Object]
   = [(examplePlugin ''cssAnimation'')\<lparr>conflicts := Some [''timeline'']\<rparr>,
      examplePlugin ''timeline'']"
  by (simp add: getActivePlugins_def shouldActivateOf_def hasPluginOptions_def prop_get_def
        optionsKeyOf_def examplePlugin_def)

theorem setupPlugins_configuration_error_witness:
  "(examplePlugin ''stagger'')\<lparr>requires := Some [''responsive.scale'']\<rparr>
     \<in> set (getActivePlugins
         [(examplePlugin ''stagger'')\<lparr>requires := Some [''responsive.scale'']\<rparr>,
          examplePlugin ''responsive'']
         [''stagger'' \<mapsto> Object])
   \<and> setupCalls (setupPlugins Map.empty
         [(examplePlugin ''stagger'')\<lparr>requires := Some [''responsive.scale'']\<rparr>,
          examplePlugin ''responsive'']
         [''stagger'' \<mapsto> Object]) = []
   \<and> (examplePlugin ''cssAnimation'')\<lparr>conflicts := Some [''timeline'']\<rparr>
     \<in> set (getActivePlugins
         [(examplePlugin ''cssAnimation'')\<lparr>conflicts := Some [''timeline'']\<rparr>,
          examplePlugin ''timeline'']
         [''cssAnimation'' \<mapsto> Object, ''timeline'' \<mapsto> Object])
   \<and> setupCalls (setupPlugins Map.empty
         [(examplePlugin ''cssAnimation'')\<lparr>conflicts := Some [''timeline'']\<rparr>,
          examplePlugin ''timeline'']
         [''cssAnimation'' \<mapsto> Object, ''timeline'' \<mapsto> Object]) = []"
proof -
  let ?p = "(examplePlugin ''stagger'')\<lparr>requires := Some [''responsive.scale'']\<rparr>"
  let ?reg = "[?p, examplePlugin ''responsive'']"
  let ?opts = "[''stagger'' \<mapsto> Object]"
  have h1: "?p \<in> set (getActivePlugins ?reg ?opts)"
    by (simp add: active_example)
  have h2: "(\<exists>r\<in>set (requiresOf ?p). requiredPlugin r \<notin> name ` set (getActivePlugins ?reg ?opts))
         \<or> (\<exists>c\<in>set (conflictsOf ?p). c \<in> name ` set (getActivePlugins ?reg ?opts))"
  proof -
    have "name ?p = ''stagger''"
      by (simp add: examplePlugin_def)
    then show ?thesis
      by (simp add: active_example requiresOf_def requiredPlugin_def)
  qed
  let ?q = "(examplePlugin ''cssAnimation'')\<lparr>conflicts := Some [''timeline'']\<rparr>"
  let ?reg' = "[?q, examplePlugin ''timeline'']"
  let ?opts' = "[''cssAnimation'' \<mapsto> Object, ''timeline'' \<mapsto> Object]"
  have k1: "?q \<in> set (getActivePlugins ?reg' ?opts')"
    by (simp add: active_conflict_example)
  have k2: "(\<exists>r\<in>set (requiresOf ?q). requiredPlugin r \<notin> name ` set (getActivePlugins ?reg' ?opts'))
         \<or> (\<exists>c\<in>set (conflictsOf ?q). c \<in> name ` set (getActivePlugins ?reg' ?opts'))"
  proof -
    have "name (examplePlugin ''timeline'') = ''timeline''"
      by (simp add: examplePlugin_def)
    then show ?thesis
      by (simp add: active_conflict_example conflictsOf_def)
  qed
  from setupPlugins_configuration_error [OF h1 h2, of Map.empty]
  have a: "setupCalls (setupPlugins Map.empty ?reg ?opts) = []"
    by auto
  from setupPlugins_configuration_error [OF k1 k2, of Map.empty]
  have b: "setupCalls (setupPlugins Map.empty ?reg' ?opts') = []"
    by auto
  from h1 k1 a b show ?thesis
    by blast
qed

subsection \<open>Default activation\<close>

text \<open>
  Claim C9, as the source has it. A plugin without \<^verbatim>\<open>shouldActivate\<close> is active exactly
  when it is registered and the configuration holds, under its options key, a value
  other than \<^verbatim>\<open>undefined\<close>, \<^verbatim>\<open>null\<close> and \<^verbatim>\<open>false\<close>. The test is not truthiness: the
  number 0 and the empty string activate the plugin.
\<close>

theorem default_activation:
  assumes "shouldActivate p = None"
  shows "p \<in> set (getActivePlugins reg opts) \<longleftrightarrow>
           p \<in> set reg \<and> prop_get opts (optionsKeyOf p) \<notin> {Undefined, Null, Boolean False}"
  using assms
  by (cases "prop_get opts (optionsKeyOf p)")
     (simp_all add: getActivePlugins_def shouldActivateOf_def hasPluginOptions_def)

theorem default_activation_witness:
  "shouldActivate (examplePlugin ''stagger'') = None
   \<and> examplePlugin ''stagger'' \<in> set (getActivePlugins [examplePlugin ''stagger''] [''stagger'' \<mapsto> Object])
   \<and> examplePlugin ''stagger'' \<notin> set (getActivePlugins [examplePlugin ''stagger''] [''stagger'' \<mapsto> Boolean False])
   \<and> examplePlugin ''stagger'' \<notin> set (getActivePlugins [examplePlugin ''stagger''] [''stagger'' \<mapsto> Null])
   \<and> examplePlugin ''stagger'' \<notin> set (getActivePlugins [examplePlugin ''stagger''] Map.empty)"
proof -
  have h: "shouldActivate (examplePlugin ''stagger'') = None"
    by (simp add: examplePlugin_def)
  have k: "optionsKeyOf (examplePlugin ''stagger'') = ''stagger''"
    by (simp add: optionsKeyOf_def examplePlugin_def)
  show ?thesis
    using h default_activation [OF h, of "[examplePlugin ''stagger'']"]
    by (simp add: k prop_get_def)
qed

theorem falsy_values_activate_counterexample:
  "shouldActivate (examplePlugin ''stagger'') = None
   \<and> \<not> truthy (prop_get [''stagger'' \<mapsto> Number 0] (optionsKeyOf (examplePlugin ''stagger'')))
   \<and> examplePlugin ''stagger''
       \<in> set (getActivePlugins [examplePlugin ''stagger''] [''stagger'' \<mapsto> Number 0])
   \<and> \<not> truthy (prop_get [''stagger'' \<mapsto> String []] (optionsKeyOf (examplePlugin ''stagger'')))
   \<and> examplePlugin ''stagger''
       \<in> set (getActivePlugins [examplePlugin ''stagger''] [''stagger'' \<mapsto> String []])"
  by (simp add: getActivePlugins_def shouldActivateOf_def hasPluginOptions_def prop_get_def
        optionsKeyOf_def examplePlugin_def)

subsection \<open>Only the prefix of a required key is validated\<close>

lemma requiredPlugin_suffix:
  "requiredPlugin (pre @ CHR ''.'' # rest) = requiredPlugin pre"
  by (induction pre) (simp_all add: requiredPlugin_def)

lemma requiredPlugin_idem: "requiredPlugin (requiredPlugin r) = requiredPlugin r"
  by (simp add: requiredPlugin_def)

lemma stripSuffixes_fields:
  "name (stripSuffixes p) = name p"
  "setupFn (stripSuffixes p) = setupFn p"
  "conflictsOf (stripSuffixes p) = conflictsOf p"
  "priorityOf (stripSuffixes p) = priorityOf p"
  "shouldActivateOf (stripSuffixes p) opts = shouldActivateOf p opts"
  "extractPluginOptions (stripSuffixes p) opts = extractPluginOptions p opts"
  by (simp_all add: stripSuffixes_def conflictsOf_def priorityOf_def shouldActivateOf_def
        hasPluginOptions_def extractPluginOptions_def optionsKeyOf_def split: option.splits)

lemma getActivePlugins_stripSuffixes:
  "getActivePlugins (map stripSuffixes reg) opts = map stripSuffixes (getActivePlugins reg opts)"
  by (simp add: getActivePlugins_def filter_map o_def stripSuffixes_fields)

lemma checkConflicts_stripSuffixes:
  "checkConflicts (map stripSuffixes active) = checkConflicts active"
  by (simp add: checkConflicts_def firstError_map stripSuffixes_fields o_def cong: if_cong)

lemma insort_key_map_plugin:
  "(\<And>x. f (g x) = f x) \<Longrightarrow> insort_key f (g x) (map g xs) = map g (insort_key f x xs)"
  by (induction xs) simp_all

lemma sort_key_map_plugin:
  "(\<And>x. f (g x) = f x) \<Longrightarrow> sort_key f (map g xs) = map g (sort_key f xs)"
  by (induction xs) (simp_all add: insort_key_map_plugin)

lemma sortByPriority_stripSuffixes:
  "sortByPriority (map stripSuffixes active) = map stripSuffixes (sortByPriority active)"
  unfolding sortByPriority_def
  by (rule sort_key_map_plugin) (simp add: stripSuffixes_fields)

lemma setupEach_stripSuffixes:
  "setupEach opts (map stripSuffixes ps) calls sd systems = setupEach opts ps calls sd systems"
  by (induction ps arbitrary: calls sd systems)
     (simp_all add: stripSuffixes_fields split: sum.splits)

lemma requiresOf_stripSuffixes: "requiresOf (stripSuffixes p) = map requiredPlugin (requiresOf p)"
  by (simp add: requiresOf_def stripSuffixes_def split: option.splits)

lemma validateDependencies_stripSuffixes:
  "validateDependencies (map stripSuffixes active) = validateDependencies active"
  by (simp add: validateDependencies_def firstError_map requiresOf_stripSuffixes
        stripSuffixes_fields requiredPlugin_idem o_def Let_def cong: if_cong)

lemma setupPlugins_stripSuffixes:
  "setupCalls (setupPlugins sd (map stripSuffixes reg) opts) = setupCalls (setupPlugins sd reg opts)
   \<and> sharedData (setupPlugins sd (map stripSuffixes reg) opts) = sharedData (setupPlugins sd reg opts)
   \<and> map_sum id fst (outcome (setupPlugins sd (map stripSuffixes reg) opts))
       = map_sum id fst (outcome (setupPlugins sd reg opts))"
  by (simp add: setupPlugins_def getActivePlugins_stripSuffixes validateDependencies_stripSuffixes
        checkConflicts_stripSuffixes sortByPriority_stripSuffixes setupEach_stripSuffixes Let_def
        split: option.splits prod.splits sum.splits)

text \<open>A configuration that passes both validations is set up in full.\<close>

lemma setupEach_succeeds:
  assumes "\<forall>p\<in>set ps. \<forall>sd v. \<not> isl (setupFn p sd v)"
  shows "\<exists>sd' systems'. setupEach opts ps calls sd systems = (calls @ map name ps, sd', Inr systems')"
  using assms
proof (induction ps arbitrary: calls sd systems)
  case Nil
  then show ?case by simp
next
  case (Cons p ps)
  from Cons.prems have "\<not> isl (setupFn p sd (extractPluginOptions p opts))"
    by simp
  then obtain system sd1 where r: "setupFn p sd (extractPluginOptions p opts) = Inr (system, sd1)"
    by (cases "setupFn p sd (extractPluginOptions p opts)") auto
  from Cons.prems have "\<forall>q\<in>set ps. \<forall>sd v. \<not> isl (setupFn q sd v)"
    by simp
  then have "\<exists>sd' systems'.
      setupEach opts ps (calls @ [name p]) (sd1(name p @ ''.system'' \<mapsto> system))
        (systems_set (name p) system systems)
      = ((calls @ [name p]) @ map name ps, sd', Inr systems')"
    by (rule Cons.IH)
  then show ?case
    by (simp add: r)
qed

lemma setupPlugins_accepts:
  assumes "\<forall>p\<in>set (getActivePlugins reg opts). \<forall>r\<in>set (requiresOf p).
             requiredPlugin r \<in> name ` set (getActivePlugins reg opts)"
      and "checkConflicts (getActivePlugins reg opts) = None"
      and "\<forall>p\<in>set (getActivePlugins reg opts). \<forall>sd v. \<not> isl (setupFn p sd v)"
  shows "setupCalls (setupPlugins sd reg opts) = map name (sortByPriority (getActivePlugins reg opts))
       \<and> (\<exists>systems. outcome (setupPlugins sd reg opts)
             = Inr (systems, sortByPriority (getActivePlugins reg opts)))"
proof -
  let ?active = "getActivePlugins reg opts"
  from assms(1) have v: "validateDependencies ?active = None"
    by (simp add: validateDependencies_None)
  have "set (sortByPriority ?active) = set ?active"
    by (simp add: sortByPriority_def)
  with assms(3) have "\<forall>p\<in>set (sortByPriority ?active). \<forall>sd v. \<not> isl (setupFn p sd v)"
    by simp
  from setupEach_succeeds [OF this, of opts "[]" sd "[]"]
  obtain sd' systems' where
    "setupEach opts (sortByPriority ?active) [] sd [] = (map name (sortByPriority ?active), sd', Inr systems')"
    by auto
  with v assms(2) show ?thesis
    by (simp add: setupPlugins_def Let_def)
qed

lemma active_suffix_example:
  "getActivePlugins
     [(examplePlugin ''stagger'')\<lparr>requires := Some [''responsive.scale'']\<rparr>,
      examplePlugin ''responsive'']
     [''stagger'' \<mapsto> Object, ''responsive'' \<mapsto> Boolean True]
   = [(examplePlugin ''stagger'')\<lparr>requires := Some [''responsive.scale'']\<rparr>,
      examplePlugin ''responsive'']"
  by (simp add: getActivePlugins_def shouldActivateOf_def hasPluginOptions_def prop_get_def
        optionsKeyOf_def examplePlugin_def)

text \<open>
  Claim C10. Dependency validation passes exactly when, for every required key of every
  active plugin, the text before the key's first dot is the name of an active plugin.
  What follows the first dot is never looked at: a key and its prefix are validated
  alike, and cutting every required key of the registry off at its first dot changes
  neither which setups \<^verbatim>\<open>setupPlugins\<close> runs, nor the shared data, nor the error or the
  systems it ends with. So \<^verbatim>\<open>setupPlugins\<close> accepts a configuration whenever the prefix
  of every required key of every active plugin names an active plugin, no active plugin
  declares a conflict with an active plugin and no setup function throws: it then runs
  the setup of every active plugin, in the order of the priorities, and returns the
  systems together with the sorted plugins.
\<close>

theorem dependency_suffix_never_validated:
  "(validateDependencies active = None \<longleftrightarrow>
      (\<forall>p\<in>set active. \<forall>r\<in>set (requiresOf p). requiredPlugin r \<in> name ` set active))
   \<and> requiredPlugin (pre @ CHR ''.'' # rest) = requiredPlugin pre
   \<and> validateDependencies (map stripSuffixes active) = validateDependencies active
   \<and> setupCalls (setupPlugins sd (map stripSuffixes reg) opts)
       = setupCalls (setupPlugins sd reg opts)
   \<and> sharedData (setupPlugins sd (map stripSuffixes reg) opts)
       = sharedData (setupPlugins sd reg opts)
   \<and> map_sum id fst (outcome (setupPlugins sd (map stripSuffixes reg) opts))
       = map_sum id fst (outcome (setupPlugins sd reg opts))
   \<and> ((\<forall>p\<in>set (getActivePlugins reg opts). \<forall>r\<in>set (requiresOf p).
          requiredPlugin r \<in> name ` set (getActivePlugins reg opts))
        \<and> checkConflicts (getActivePlugins reg opts) = None
        \<and> (\<forall>p\<in>set (getActivePlugins reg opts). \<forall>sd v. \<not> isl (setupFn p sd v))
      \<longrightarrow> setupCalls (setupPlugins sd reg opts)
            = map name (sortByPriority (getActivePlugins reg opts))
        \<and> (\<exists>systems. outcome (setupPlugins sd reg opts)
              = Inr (systems, sortByPriority (getActivePlugins reg opts))))"
  using validateDependencies_None [of active] requiredPlugin_suffix [of pre rest]
    validateDependencies_stripSuffixes [of active] setupPlugins_stripSuffixes [of sd reg opts]
    setupPlugins_accepts [of reg opts sd]
  by blast

theorem dependency_suffix_never_validated_witness:
  "map name (getActivePlugins
        [(examplePlugin ''stagger'')\<lparr>requires := Some [''responsive.scale'']\<rparr>,
         examplePlugin ''responsive'']
        [''stagger'' \<mapsto> Object, ''responsive'' \<mapsto> Boolean True])
       = [''stagger'', ''responsive'']
   \<and> map requiresOf (getActivePlugins
        [(examplePlugin ''stagger'')\<lparr>requires := Some [''responsive.scale'']\<rparr>,
         examplePlugin ''responsive'']
        [''stagger'' \<mapsto> Object, ''responsive'' \<mapsto> Boolean True])
       = [[''responsive.scale''], []]
   \<and> requiredPlugin ''responsive.scale'' = ''responsive''
   \<and> checkConflicts (getActivePlugins
        [(examplePlugin ''stagger'')\<lparr>requires := Some [''responsive.scale'']\<rparr>,
         examplePlugin ''responsive'']
        [''stagger'' \<mapsto> Object, ''responsive'' \<mapsto> Boolean True]) = None
   \<and> setupCalls (setupPlugins Map.empty
        [(examplePlugin ''stagger'')\<lparr>requires := Some [''responsive.scale'']\<rparr>,
         examplePlugin ''responsive'']
        [''stagger'' \<mapsto> Object, ''responsive'' \<mapsto> Boolean True])
       = [''stagger'', ''responsive'']
   \<and> \<not> isl (outcome (setupPlugins Map.empty
        [(examplePlugin ''stagger'')\<lparr>requires := Some [''responsive.scale'']\<rparr>,
         examplePlugin ''responsive'']
        [''stagger'' \<mapsto> Object, ''responsive'' \<mapsto> Boolean True]))"
proof -
  let ?p = "(examplePlugin ''stagger'')\<lparr>requires := Some [''responsive.scale'']\<rparr>"
  let ?q = "examplePlugin ''responsive'' :: unit plugin"
  let ?reg = "[?p, ?q]"
  let ?opts = "[''stagger'' \<mapsto> Object, ''responsive'' \<mapsto> Boolean True]"
  have n: "name ?p = ''stagger''" "name ?q = ''responsive''"
    by (simp_all add: examplePlugin_def)
  have r: "requiresOf ?p = [''responsive.scale'']" "requiresOf ?q = []"
    by (simp_all add: requiresOf_def examplePlugin_def)
  have c: "conflictsOf ?p = []" "conflictsOf ?q = []"
    by (simp_all add: conflictsOf_def examplePlugin_def)
  have q: "requiredPlugin ''responsive.scale'' = ''responsive''"
    by (simp add: requiredPlugin_def)
  have h1: "\<forall>p\<in>set (getActivePlugins ?reg ?opts). \<forall>r\<in>set (requiresOf p).
              requiredPlugin r \<in> name ` set (getActivePlugins ?reg ?opts)"
    unfolding active_suffix_example by (simp add: n r q)
  have h2: "checkConflicts (getActivePlugins ?reg ?opts) = None"
    unfolding active_suffix_example by (simp add: checkConflicts_def c)
  have h3: "\<forall>p\<in>set (getActivePlugins ?reg ?opts). \<forall>sd v. \<not> isl (setupFn p sd v)"
    unfolding active_suffix_example by (simp add: examplePlugin_def)
  have s: "sortByPriority (getActivePlugins ?reg ?opts) = ?reg"
    unfolding active_suffix_example by (simp add: sortByPriority_def priorityOf_def examplePlugin_def)
  from dependency_suffix_never_validated [of _ _ _ Map.empty ?reg ?opts] h1 h2 h3
  have "setupCalls (setupPlugins Map.empty ?reg ?opts)
          = map name (sortByPriority (getActivePlugins ?reg ?opts))
        \<and> (\<exists>systems. outcome (setupPlugins Map.empty ?reg ?opts)
              = Inr (systems, sortByPriority (getActivePlugins ?reg ?opts)))"
    by blast
  moreover have "map name (getActivePlugins ?reg ?opts) = [''stagger'', ''responsive'']"
      "map requiresOf (getActivePlugins ?reg ?opts) = [[''responsive.scale''], []]"
    unfolding active_suffix_example by (simp_all add: n r)
  ultimately show ?thesis
    using h2 q s n by auto
qed

subsection \<open>Cleanup order\<close>

lemma getCleanupOrder_sorted:
  "sorted (map cleanupPriorityOf (getCleanupOrder ps)) \<and> mset (getCleanupOrder ps) = mset ps"
  by (simp add: getCleanupOrder_def sortByPriority_def)

lemma sortByPriority_sorted:
  "sorted (map (\<lambda>p. - priorityOf p) (sortByPriority ps)) \<and> mset (sortByPriority ps) = mset ps"
  by (simp add: sortByPriority_def)

lemma sort_key_cong_set:
  "(\<And>x. x \<in> set xs \<Longrightarrow> f x = g x) \<Longrightarrow> sort_key f xs = sort_key g xs"
proof (induction xs)
  case Nil
  then show ?case by simp
next
  case (Cons x xs)
  have "insort_key f x ys = insort_key g x ys" if "set ys \<subseteq> set (x # xs)" for ys
    using that Cons.prems by (induction ys) auto
  then show ?case
    using Cons by (simp add: subset_iff)
qed

lemma getCleanupOrder_reverses_distinct:
  assumes "\<forall>p\<in>set ps. cleanupPriority p = None" and "distinct (map priorityOf ps)"
  shows "getCleanupOrder ps = rev (sortByPriority ps)"
proof -
  let ?xs = "sortByPriority ps"
  have m: "mset ?xs = mset ps"
    by (simp add: sortByPriority_def)
  then have st: "set ?xs = set ps"
    by (metis set_mset_mset)
  have c: "getCleanupOrder ps = sort_key priorityOf ?xs"
    unfolding getCleanupOrder_def
    using assms(1) st by (intro sort_key_cong_set) (simp add: cleanupPriorityOf_def)
  have d: "distinct (map priorityOf ?xs)"
  proof -
    have "mset (map priorityOf ?xs) = mset (map priorityOf ps)"
      using m by simp
    with assms(2) show ?thesis
      using mset_eq_imp_distinct_iff by blast
  qed
  have "map priorityOf (sort_key priorityOf ?xs) = map priorityOf (rev ?xs)"
  proof (rule sorted_distinct_set_unique)
    show "sorted (map priorityOf (sort_key priorityOf ?xs))"
      by simp
    show "distinct (map priorityOf (sort_key priorityOf ?xs))"
    proof -
      have "mset (map priorityOf (sort_key priorityOf ?xs)) = mset (map priorityOf ?xs)"
        by simp
      with d show ?thesis
        using mset_eq_imp_distinct_iff by blast
    qed
    have "sorted (map (\<lambda>p. - priorityOf p) ?xs)"
      by (simp add: sortByPriority_def)
    then show "sorted (map priorityOf (rev ?xs))"
      by (simp add: sorted_map sorted_wrt_rev sorted_wrt_map rev_map)
    show "distinct (map priorityOf (rev ?xs))"
      using d by (simp add: rev_map [symmetric])
    show "set (map priorityOf (sort_key priorityOf ?xs)) = set (map priorityOf (rev ?xs))"
      by simp
  qed
  moreover have "inj_on priorityOf (set (sort_key priorityOf ?xs) \<union> set (rev ?xs))"
    using d by (simp add: distinct_map)
  ultimately have "sort_key priorityOf ?xs = rev ?xs"
    by (simp add: inj_on_map_eq_map)
  with c show ?thesis
    by simp
qed

text \<open>
  Claim C8. The cleanup order is sorted ascending by cleanup priority
  (\<open>getCleanupOrder_sorted\<close>), and it is the reverse of the setup order when no plugin
  overrides its cleanup priority and all priorities differ
  (\<open>getCleanupOrder_reverses_distinct\<close>). With equal priorities it is not: both sorts
  are stable, so two plugins of priority 50 are set up in registration order and cleaned
  up in registration order again, where the comment on the comparator of
  \<^verbatim>\<open>getCleanupOrder\<close> says \<^verbatim>\<open>reverse of setup\<close>.
\<close>

theorem cleanup_order_equal_priorities:
  "sortByPriority [examplePlugin ''webAnimation'', examplePlugin ''stagger'']
     = [examplePlugin ''webAnimation'', examplePlugin ''stagger'']
   \<and> getCleanupOrder [examplePlugin ''webAnimation'', examplePlugin ''stagger'']
     = [examplePlugin ''webAnimation'', examplePlugin ''stagger'']
   \<and> getCleanupOrder [examplePlugin ''webAnimation'', examplePlugin ''stagger'']
     \<noteq> rev (sortByPriority [examplePlugin ''webAnimation'', examplePlugin ''stagger''])"
  by (simp add: getCleanupOrder_def sortByPriority_def cleanupPriorityOf_def priorityOf_def
        examplePlugin_def)

section \<open>Properties of the stagger delays\<close>

lemma upt_3: "[0..<3] = [0, 1, 2]"
  by (simp add: upt_rec)

lemma upt_4: "[0..<4] = [0, 1, 2, 3]"
  by (simp add: upt_rec)

text \<open>
  Claim C6. Three elements, delay 100, no grid, linear easing: from the start the delays
  are 0, 100, 200, and from the end 200, 100, 0. From the center the position of element
  \<open>i\<close> is its distance to \<open>count / 2\<close>, half an element past the middle
  \<open>(count - 1) / 2\<close> of the indices: four elements get 200, 100, 0, 100, so the first
  delay is not the last delay.
\<close>

theorem linear_stagger_delays:
  "calculateStaggerDelays 3 \<lparr>delay = 100, staggerFrom = Some Start, ease = Some ''linear'', grid = None\<rparr>
     = [0, 100, 200]
   \<and> calculateStaggerDelays 3 \<lparr>delay = 100, staggerFrom = Some End, ease = Some ''linear'', grid = None\<rparr>
     = [200, 100, 0]
   \<and> calculateStaggerDelays 4 \<lparr>delay = 100, staggerFrom = Some Center, ease = Some ''linear'', grid = None\<rparr>
     = [200, 100, 0, 100]
   \<and> calculateStaggerDelays 4 \<lparr>delay = 100, staggerFrom = Some Center, ease = Some ''linear'', grid = None\<rparr> ! 0
     \<noteq> calculateStaggerDelays 4 \<lparr>delay = 100, staggerFrom = Some Center, ease = Some ''linear'', grid = None\<rparr> ! (4 - 1 - 0)"
  by (simp add: calculateStaggerDelays_def linearDelay_def fromOf_def easeOf_def upt_3 upt_4)

text \<open>
  Claim C7. On a 2 by 2 grid the distance from the center is taken to the point
  \<open>(cols / 2, rows / 2) = (1, 1)\<close>, which is the cell of element 3 and not the middle
  \<open>(1/2, 1/2)\<close> of the grid: with delay 100 the delays are \<open>100 * sqrt 2\<close>, 100, 100
  and 0. None is negative, but the delay of element 0, at (0,0), is not that of element
  3, at (1,1).
\<close>

theorem grid_stagger_delays:
  "calculateStaggerDelays 4 \<lparr>delay = 100, staggerFrom = Some Center, ease = None, grid = Some (2, 2)\<rparr>
     = [sqrt 2 * 100, 100, 100, 0]
   \<and> calculateStaggerDelays 4 \<lparr>delay = 100, staggerFrom = Some Center, ease = None, grid = Some (2, 2)\<rparr> ! 0
     \<noteq> calculateStaggerDelays 4 \<lparr>delay = 100, staggerFrom = Some Center, ease = None, grid = Some (2, 2)\<rparr> ! 3
   \<and> list_all (\<lambda>d. 0 \<le> d)
       (calculateStaggerDelays 4 \<lparr>delay = 100, staggerFrom = Some Center, ease = None, grid = Some (2, 2)\<rparr>)"
  by (simp add: calculateStaggerDelays_def gridDelay_def fromOf_def upt_4)

section \<open>Properties of the session\<close>

lemma safeCall_fields [simp]:
  "isPlaying (safeCall h s) = isPlaying s"
  "isPaused (safeCall h s) = isPaused s"
  "manualOverride (safeCall h s) = manualOverride s"
  "playWhen (safeCall h s) = playWhen s"
  "systemsArray (safeCall h s) = systemsArray s"
  "playsAwaitingHook (safeCall h s) = playsAwaitingHook s"
  "playsAwaitingSystems (safeCall h s) = playsAwaitingSystems s"
  by (simp_all add: safeCall_def emit_def)

lemma emit_fields [simp]:
  "isPlaying (emit es s) = isPlaying s"
  "isPaused (emit es s) = isPaused s"
  "manualOverride (emit es s) = manualOverride s"
  "playWhen (emit es s) = playWhen s"
  "systemsArray (emit es s) = systemsArray s"
  "playsAwaitingHook (emit es s) = playsAwaitingHook s"
  "playsAwaitingSystems (emit es s) = playsAwaitingSystems s"
  by (simp_all add: emit_def)

text \<open>No method of a plugin system reaches the override.\<close>

lemma callEach_fields [simp]:
  "manualOverride (callEach method called syss s) = manualOverride s"
  "playWhen (callEach method called syss s) = playWhen s"
  "systemsArray (callEach method called syss s) = systemsArray s"
  "playsAwaitingHook (callEach method called syss s) = playsAwaitingHook s"
  "playsAwaitingSystems (callEach method called syss s) = playsAwaitingSystems s"
  by (induction syss arbitrary: s) (simp_all split: option.splits)

text \<open>
  The override is written by an explicit \<^verbatim>\<open>play()\<close> or \<^verbatim>\<open>stop()\<close> and by a change of
  \<^verbatim>\<open>playWhen\<close> only: no trigger changes it.
\<close>

lemma override_kept: "manualOverride (fire_trigger e s) = manualOverride s"
  by (cases e)
     (simp_all add: playAuto_def runPlay_def stopAuto_def stop_def pause_def resume_def
        runPlayContinued_def runPlayFinished_def Let_def split: option.splits)

lemma override_kept_all: "manualOverride (fire_triggers es s) = manualOverride s"
  by (induction es arbitrary: s) (simp_all add: override_kept)

lemma stopAuto_overridden: "manualOverride s = Some OverridePlay \<Longrightarrow> stopAuto s = s"
  by (simp add: stopAuto_def stop_def)

lemma playAuto_overridden:
  "manualOverride s = Some OverrideStop \<Longrightarrow> playAuto s = s \<and> runPlay Auto s = s"
  by (simp add: playAuto_def runPlay_def split: option.splits)

lemma play_sets_override:
  "\<not> isPlaying s \<Longrightarrow> manualOverride (play s) = Some OverridePlay \<and> isPlaying (play s)"
  by (simp add: play_def runPlay_def Let_def)

lemma stop_sets_override:
  "isPlaying s \<or> isPaused s \<Longrightarrow>
     manualOverride (stop Manual s) = Some OverrideStop
     \<and> \<not> isPlaying (stop Manual s) \<and> \<not> isPaused (stop Manual s)"
  by (auto simp add: stop_def Let_def)

text \<open>Automatic triggers alone leave a session that is overridden as it is.\<close>

lemma automatic_after_play:
  "manualOverride s = Some OverridePlay \<Longrightarrow> isPlaying s \<Longrightarrow> list_all automatic es \<Longrightarrow>
     fire_triggers es s = s"
proof (induction es)
  case Nil
  then show ?case by simp
next
  case (Cons e es)
  from Cons.prems have "fire_trigger e s = s"
    by (cases e) (simp_all add: stopAuto_overridden playAuto_def runPlay_def split: option.splits)
  with Cons show ?case
    by simp
qed

lemma automatic_after_stop:
  "manualOverride s = Some OverrideStop \<Longrightarrow> \<not> isPlaying s \<Longrightarrow> \<not> isPaused s \<Longrightarrow>
   list_all automatic es \<Longrightarrow> fire_triggers es s = s"
proof (induction es)
  case Nil
  then show ?case by simp
next
  case (Cons e es)
  from Cons.prems have "fire_trigger e s = s"
    by (cases e) (simp_all add: playAuto_overridden stopAuto_def stop_def)
  with Cons show ?case
    by simp
qed

text \<open>
  Claim C3, as the source has it. An explicit \<^verbatim>\<open>play()\<close> records the manual override only
  when it starts the session; on a session that is already playing it returns at once.
  After an explicit \<^verbatim>\<open>play()\<close> of a session that was not playing, whatever happens next
  short of an explicit call and of a change of \<^verbatim>\<open>playWhen\<close> (automatic plays and stops,
  pauses, resumes, the suspended \<^verbatim>\<open>runPlay\<close> going on, plugins or other sessions writing
  the flags), the override stays \<^verbatim>\<open>'play'\<close> and an automatic stop is a no-op: it changes
  nothing at all, no flag, no call of a hook or of a plugin; and automatic triggers
  alone leave the session exactly as the \<^verbatim>\<open>play()\<close> left it, playing. Symmetrically,
  after an explicit \<^verbatim>\<open>stop()\<close> of a session that was playing or paused the override
  stays \<^verbatim>\<open>'stop'\<close>, an automatic play is a no-op, and automatic triggers alone leave the
  session exactly as the \<^verbatim>\<open>stop()\<close> left it, stopped. That the session remains playing,
  or stopped, under everything else is not so: the flags are also written by the plugin
  systems and by a suspended \<^verbatim>\<open>runPlay\<close> that starts the systems, which the override does
  not prevent.
\<close>

theorem manual_override_wins:
  "(\<not> isPlaying s \<longrightarrow>
      manualOverride (fire_triggers es (play s)) = Some OverridePlay
      \<and> stopAuto (fire_triggers es (play s)) = fire_triggers es (play s)
      \<and> isPlaying (play s)
      \<and> (list_all automatic es \<longrightarrow> fire_triggers es (play s) = play s))
   \<and> (isPlaying s \<or> isPaused s \<longrightarrow>
      manualOverride (fire_triggers es (stop Manual s)) = Some OverrideStop
      \<and> playAuto (fire_triggers es (stop Manual s)) = fire_triggers es (stop Manual s)
      \<and> runPlay Auto (fire_triggers es (stop Manual s)) = fire_triggers es (stop Manual s)
      \<and> \<not> isPlaying (stop Manual s) \<and> \<not> isPaused (stop Manual s)
      \<and> (list_all automatic es \<longrightarrow> fire_triggers es (stop Manual s) = stop Manual s))"
proof (intro conjI impI)
  assume a: "\<not> isPlaying s"
  note p = play_sets_override [OF a]
  from p show "manualOverride (fire_triggers es (play s)) = Some OverridePlay"
    by (simp add: override_kept_all)
  then show "stopAuto (fire_triggers es (play s)) = fire_triggers es (play s)"
    by (rule stopAuto_overridden)
  from p show "isPlaying (play s)"
    by simp
  assume "list_all automatic es"
  with p show "fire_triggers es (play s) = play s"
    by (intro automatic_after_play) simp_all
next
  assume a: "isPlaying s \<or> isPaused s"
  note p = stop_sets_override [OF a]
  from p have o: "manualOverride (fire_triggers es (stop Manual s)) = Some OverrideStop"
    by (simp add: override_kept_all)
  then show "manualOverride (fire_triggers es (stop Manual s)) = Some OverrideStop" .
  from o show "playAuto (fire_triggers es (stop Manual s)) = fire_triggers es (stop Manual s)"
    and "runPlay Auto (fire_triggers es (stop Manual s)) = fire_triggers es (stop Manual s)"
    by (simp_all add: playAuto_overridden)
  from p show "\<not> isPlaying (stop Manual s)" and "\<not> isPaused (stop Manual s)"
    by simp_all
  assume "list_all automatic es"
  with p show "fire_triggers es (stop Manual s) = stop Manual s"
    by (intro automatic_after_stop) simp_all
qed

theorem manual_override_wins_witness:
  "\<not> isPlaying exampleSession
   \<and> manualOverride (fire_triggers
         [AutoStop, Pause, PlayContinues, AutoStop, Resume, FlagsWritten False False, AutoPlay]
         (play exampleSession)) = Some OverridePlay
   \<and> list_all automatic [AutoStop, AutoPlay, AutoStop]
   \<and> isPlaying (fire_triggers [AutoStop, AutoPlay, AutoStop] (play exampleSession))
   \<and> (isPlaying (play exampleSession) \<or> isPaused (play exampleSession))
   \<and> manualOverride (fire_triggers [AutoPlay, PlayContinues, Resume, AutoPlay]
         (stop Manual (play exampleSession))) = Some OverrideStop
   \<and> list_all automatic [AutoPlay, AutoStop, AutoPlay]
   \<and> \<not> isPlaying (fire_triggers [AutoPlay, AutoStop, AutoPlay] (stop Manual (play exampleSession)))"
proof -
  have h1: "\<not> isPlaying exampleSession"
    by (simp add: exampleSession_def)
  have h2: "isPlaying (play exampleSession) \<or> isPaused (play exampleSession)"
    by (simp add: exampleSession_def play_def runPlay_def Let_def)
  have h3: "list_all automatic [AutoStop, AutoPlay, AutoStop]"
      "list_all automatic [AutoPlay, AutoStop, AutoPlay]"
    by simp_all
  from h1 h2 h3
    manual_override_wins [of exampleSession
      "[AutoStop, Pause, PlayContinues, AutoStop, Resume, FlagsWritten False False, AutoPlay]"]
    manual_override_wins [of exampleSession "[AutoStop, AutoPlay, AutoStop]"]
    manual_override_wins [of "play exampleSession" "[AutoPlay, PlayContinues, Resume, AutoPlay]"]
    manual_override_wins [of "play exampleSession" "[AutoPlay, AutoStop, AutoPlay]"]
  show ?thesis
    by metis
qed

text \<open>A change of \<^verbatim>\<open>playWhen\<close> resets the override.\<close>

lemma playWhenChanged_resets: "manualOverride (playWhenChanged v s) = None"
  by (simp add: playWhenChanged_def runPlay_def stop_def Let_def)

text \<open>
  Two sessions on which the claim as it was stated fails. On the example session an
  automatic play comes first: the explicit \<^verbatim>\<open>play()\<close> that follows returns at once and
  records nothing, and the next automatic stop stops the session. On the session of the
  CSS animation system where animation is not allowed, the suspended \<^verbatim>\<open>runPlay\<close> of an
  explicit \<^verbatim>\<open>play()\<close> goes on and the system's \<^verbatim>\<open>play()\<close> clears the flag: the automatic
  stop that follows is a no-op, and the session is not playing.
\<close>

theorem manual_play_while_playing_counterexample:
  "play (playAuto exampleSession) = playAuto exampleSession
   \<and> isPlaying (play (playAuto exampleSession))
   \<and> \<not> isPlaying (stopAuto (play (playAuto exampleSession)))
   \<and> stopAuto (play (playAuto exampleSession)) \<noteq> play (playAuto exampleSession)
   \<and> \<not> isPlaying cssAnimationSession
   \<and> \<not> isPlaying (fire_triggers [PlayContinues, AutoStop] (play cssAnimationSession))"
proof -
  have p: "isPlaying (playAuto exampleSession)"
      "manualOverride (playAuto exampleSession) = None"
    by (simp_all add: playAuto_def runPlay_def exampleSession_def Let_def)
  then have e: "play (playAuto exampleSession) = playAuto exampleSession"
    by (simp add: play_def runPlay_def)
  have n: "\<not> isPlaying (stopAuto (playAuto exampleSession))"
    using p by (simp add: stopAuto_def stop_def Let_def)
  from p(1) n have d: "stopAuto (playAuto exampleSession) \<noteq> playAuto exampleSession"
    by metis
  have c0: "\<not> isPlaying cssAnimationSession"
    by (simp add: cssAnimationSession_def exampleSession_def)
  have c1: "\<not> isPlaying (runPlayContinued (play cssAnimationSession))"
    by (simp add: cssAnimationSession_def exampleSession_def cssAnimationSystem_def play_def
          runPlay_def runPlayContinued_def playableSystems_def Let_def)
  have "manualOverride (runPlayContinued (play cssAnimationSession)) = Some OverridePlay"
    using c0 play_sets_override [of cssAnimationSession]
      override_kept [of PlayContinues "play cssAnimationSession"]
    by simp
  then have "stopAuto (runPlayContinued (play cssAnimationSession))
      = runPlayContinued (play cssAnimationSession)"
    by (rule stopAuto_overridden)
  with c1 have c2: "\<not> isPlaying (fire_triggers [PlayContinues, AutoStop] (play cssAnimationSession))"
    by simp
  from p n e d c0 c2 show ?thesis
    by simp
qed

subsection \<open>Cleanup called twice\<close>

lemma cleanupCalls_emit:
  "cleanupCalls n (emit es s) = cleanupCalls n s + length (filter (\<lambda>e. e = SystemCleanup n) es)"
  by (simp add: cleanupCalls_def emit_def)

lemma cleanupCalls_callEach:
  "cleanupCalls n (callEach cleanupMethod SystemCleanup syss s)
     = cleanupCalls n s
       + length (filter (\<lambda>sys. systemName sys = n \<and> cleanupMethod sys \<noteq> None) syss)"
  by (induction syss arbitrary: s)
     (auto simp: cleanupCalls_def emit_def split: option.splits)

lemma effects_callEach_fields [simp]:
  "pluginWatchers (callEach method called syss s) = pluginWatchers s"
  "localWatchers (callEach method called syss s) = localWatchers s"
  "cleanupHandlers (callEach method called syss s) = cleanupHandlers s"
  "stateName (callEach method called syss s) = stateName s"
  "stateConsumers (callEach method called syss s) = stateConsumers s"
  "consumerId (callEach method called syss s) = consumerId s"
  by (induction syss arbitrary: s) (simp_all add: emit_def split: option.splits)

lemma cleanupCalls_cleanup:
  "cleanupCalls n (cleanup s)
     = cleanupCalls n s + length (filter (\<lambda>sys. systemName sys = n) (cleanableSystems s))"
proof -
  let ?s3 = "emit (map WatcherStopped (localWatchers s))
      (emit (map WatcherStopped (pluginWatchers s)) (s\<lparr>isPlaying := False, isPaused := False\<rparr>))"
  let ?s4 = "callEach cleanupMethod SystemCleanup (cleanableSystems ?s3) ?s3"
  have g: "filter (\<lambda>e. e = SystemCleanup n) (map WatcherStopped ws) = []"
     "filter (\<lambda>e. e = SystemCleanup n) (map HandlerCalled ws) = []" for ws
    by (induction ws) auto
  have c: "cleanableSystems ?s3 = cleanableSystems s"
    by (simp add: cleanableSystems_def emit_def)
  have "cleanupCalls n ?s3 = cleanupCalls n s"
    by (simp add: cleanupCalls_def emit_def g)
  then have f: "cleanupCalls n ?s4
      = cleanupCalls n s + length (filter (\<lambda>sys. systemName sys = n) (cleanableSystems s))"
    by (simp add: cleanupCalls_callEach c cleanableSystems_def cong: conj_cong)
  have "cleanupCalls n (cleanup s) = cleanupCalls n ?s4"
    by (simp add: cleanup_def Let_def cleanupSharedState_def cleanupCalls_def emit_def g
          split: option.splits)
  with f show ?thesis
    by simp
qed

lemma cleanableSystems_cleanup: "cleanableSystems (cleanup s) = cleanableSystems s"
  by (simp add: cleanup_def Let_def cleanupSharedState_def cleanableSystems_def emit_def
        split: option.splits)

text \<open>
  Claim C5. \<^verbatim>\<open>cleanup()\<close> empties the list of cleanup handlers after running them, so
  these run once; it keeps the list of plugin systems, and nothing records that the
  session has been cleaned up. Every call of \<^verbatim>\<open>cleanup()\<close> therefore calls the cleanup
  of every plugin system again (\<open>cleanupCalls_cleanup\<close>): after two calls the cleanup of
  the plugin system of the example session has been invoked twice.
\<close>

theorem cleanup_twice_calls_twice:
  "cleanupCalls ''stagger'' exampleSession = 0
   \<and> cleanupCalls ''stagger'' (cleanup exampleSession) = 1
   \<and> cleanupCalls ''stagger'' (cleanup (cleanup exampleSession)) = 2"
  by (simp add: cleanupCalls_cleanup cleanableSystems_cleanup)
     (simp add: cleanupCalls_def cleanableSystems_def exampleSession_def exampleSystem_def)

section \<open>Properties of the shared clock\<close>

lemma forEach_end: "\<not> index < length (callbacks s) \<Longrightarrow> forEach index t s = (False, s)"
  by (simp add: forEach.simps)

lemma forEach_None:
  "index < length (callbacks s) \<Longrightarrow> callbacks s ! index = None \<Longrightarrow>
     forEach index t s = forEach (Suc index) t s"
  by (subst forEach.simps) simp

lemma forEach_Some:
  "index < length (callbacks s) \<Longrightarrow> callbacks s ! index = Some cb \<Longrightarrow>
     forEach index t s =
       (if fst (invoke index cb t s) then invoke index cb t s
        else forEach (Suc index) t (snd (invoke index cb t s)))"
  by (subst forEach.simps) simp

lemma walkTo_end:
  "\<not> (index < bound \<and> index < length (callbacks s)) \<Longrightarrow> walkTo bound index t s = (False, s)"
  by (subst walkTo.simps) auto

lemma walkTo_None:
  "index < bound \<Longrightarrow> index < length (callbacks s) \<Longrightarrow> callbacks s ! index = None \<Longrightarrow>
     walkTo bound index t s = walkTo bound (Suc index) t s"
  by (subst walkTo.simps) simp

lemma walkTo_Some:
  "index < bound \<Longrightarrow> index < length (callbacks s) \<Longrightarrow> callbacks s ! index = Some cb \<Longrightarrow>
     walkTo bound index t s =
       (if fst (invoke index cb t s) then invoke index cb t s
        else walkTo bound (Suc index) t (snd (invoke index cb t s)))"
  by (subst walkTo.simps) simp

subsection \<open>What a tick keeps\<close>

lemma keeps_refl: "keeps s s"
  by (simp add: keeps_def)

lemma keeps_trans:
  assumes "keeps a b" and "keeps b c"
  shows "keeps a c"
  unfolding keeps_def
proof (intro conjI allI impI)
  show "length (callbacks a) \<le> length (callbacks c)"
    using assms by (simp add: keeps_def)
  show "prefix (invoked a) (invoked c)"
  proof -
    from assms have "prefix (invoked a) (invoked b)" "prefix (invoked b) (invoked c)"
      by (simp_all add: keeps_def)
    then show ?thesis
      by (rule prefix_order.trans)
  qed
  fix j
  assume j: "j < length (callbacks a)"
  with assms(1) have "callbacks b ! j = callbacks a ! j \<or> callbacks b ! j = None"
    by (simp add: keeps_def)
  moreover from j assms(1) have "j < length (callbacks b)"
    by (simp add: keeps_def)
  with assms(2) have "callbacks c ! j = callbacks b ! j \<or> callbacks c ! j = None"
    by (simp add: keeps_def)
  ultimately show "callbacks c ! j = callbacks a ! j \<or> callbacks c ! j = None"
    by auto
qed

lemma invoked_remove: "invoked (remove i s) = invoked s"
  by (simp add: remove_def caf_def Let_def split: option.splits)

lemma keeps_remove: "keeps s (remove i s)"
  by (auto simp: keeps_def callbacks_remove nth_list_update invoked_remove has_def)

lemma invoked_add: "invoked (snd (add cb s)) = invoked s"
  by (simp add: add_def ensureLoop_def raf_def Let_def)

lemma keeps_add: "keeps s (snd (add cb s))"
  by (simp add: keeps_def nth_append invoked_add)

lemma keeps_perform: "keeps s (snd (perform acts s))"
proof (induction acts arbitrary: s)
  case Nil
  then show ?case by (simp add: keeps_refl)
next
  case (Cons a acts)
  show ?case
  proof (cases a)
    case (Subscribe cb)
    from keeps_add [of s cb] Cons.IH [of "snd (add cb s)"]
    have "keeps s (snd (perform acts (snd (add cb s))))"
      by (rule keeps_trans)
    with Subscribe show ?thesis
      by simp
  next
    case (Unsubscribe i)
    from keeps_remove [of s i] Cons.IH [of "remove i s"]
    have "keeps s (snd (perform acts (remove i s)))"
      by (rule keeps_trans)
    with Unsubscribe show ?thesis
      by simp
  next
    case Throw
    then show ?thesis
      by (simp add: keeps_refl)
  qed
qed

lemma invoked_perform: "invoked (snd (perform acts s)) = invoked s"
proof (induction acts arbitrary: s)
  case Nil
  then show ?case by simp
next
  case (Cons a acts)
  then show ?case
    by (cases a) (simp_all add: invoked_add invoked_remove)
qed

lemma invoked_invoke:
  "invoked (snd (invoke i (Callback l acts) t s)) = invoked s @ [(i, l, t)]"
  by (simp add: invoked_perform)

lemma keeps_invoke: "keeps s (snd (invoke i cb t s))"
proof (cases cb)
  case (Callback l acts)
  have "keeps s (s\<lparr>invoked := invoked s @ [(i, l, t)]\<rparr>)"
    by (simp add: keeps_def)
  from this keeps_perform [of "s\<lparr>invoked := invoked s @ [(i, l, t)]\<rparr>" acts]
  have "keeps s (snd (perform acts (s\<lparr>invoked := invoked s @ [(i, l, t)]\<rparr>)))"
    by (rule keeps_trans)
  with Callback show ?thesis
    by simp
qed

lemma keeps_forEach: "keeps s (snd (forEach index t s))"
proof (induction index t s rule: forEach.induct)
  case (1 index t s)
  show ?case
  proof (cases "index < length (callbacks s)")
    case False
    then show ?thesis
      by (simp add: forEach_end keeps_refl)
  next
    case True
    show ?thesis
    proof (cases "callbacks s ! index")
      case None
      with True "1.IH"(1) show ?thesis
        by (simp add: forEach_None)
    next
      case (Some cb)
      show ?thesis
      proof (cases "fst (invoke index cb t s)")
        case thrown: True
        with True Some keeps_invoke [of s index cb t] show ?thesis
          by (simp add: forEach_Some)
      next
        case False
        from keeps_invoke [of s index cb t] "1.IH"(2) [OF True Some False]
        have "keeps s (snd (forEach (Suc index) t (snd (invoke index cb t s))))"
          by (rule keeps_trans)
        with True Some False show ?thesis
          by (simp add: forEach_Some)
      qed
    qed
  qed
qed

lemma keeps_entry:
  assumes "keeps s s'" and "j < length (callbacks s)" and "callbacks s' ! j = Some cb"
  shows "callbacks s ! j = Some cb"
proof -
  from assms(1,2) have "callbacks s' ! j = callbacks s ! j \<or> callbacks s' ! j = None"
    by (simp add: keeps_def)
  with assms(3) show ?thesis
    by simp
qed

subsection \<open>The walk up to an entry, and the walk from it\<close>

lemma forEach_walkTo:
  "index \<le> j \<Longrightarrow>
     forEach index t s =
       (if fst (walkTo j index t s) then walkTo j index t s
        else forEach j t (snd (walkTo j index t s)))"
proof (induction index t s rule: forEach.induct)
  case (1 index t s)
  show ?case
  proof (cases "index < j")
    case False
    with "1.prems" have "index = j"
      by simp
    then show ?thesis
      by (simp add: walkTo_end)
  next
    case lt: True
    show ?thesis
    proof (cases "index < length (callbacks s)")
      case False
      with lt have "\<not> j < length (callbacks s)"
        by simp
      with False show ?thesis
        by (simp add: walkTo_end forEach_end)
    next
      case True
      show ?thesis
      proof (cases "callbacks s ! index")
        case None
        from lt have "Suc index \<le> j"
          by simp
        from "1.IH"(1) [OF True None this] show ?thesis
          by (simp only: forEach_None [OF True None] walkTo_None [OF lt True None])
      next
        case (Some cb)
        show ?thesis
        proof (cases "fst (invoke index cb t s)")
          case thrown: True
          then show ?thesis
            by (simp add: forEach_Some [OF True Some] walkTo_Some [OF lt True Some])
        next
          case False
          from lt have "Suc index \<le> j"
            by simp
          from "1.IH"(2) [OF True Some False this] False show ?thesis
            by (simp only: forEach_Some [OF True Some] walkTo_Some [OF lt True Some] if_False)
        qed
      qed
    qed
  qed
qed

text \<open>
  The walk from entry \<open>index\<close> on invokes only symbols from \<open>index\<close> on, each with the
  timestamp of the tick, in increasing order.
\<close>

lemma forEach_record:
  "\<exists>new. invoked (snd (forEach index t s)) = invoked s @ new
     \<and> sorted_wrt (<) (map fst new)
     \<and> (\<forall>e\<in>set new. index \<le> fst e \<and> snd (snd e) = t)"
proof (induction index t s rule: forEach.induct)
  case (1 index t s)
  show ?case
  proof (cases "index < length (callbacks s)")
    case False
    then show ?thesis
      by (simp add: forEach_end)
  next
    case True
    show ?thesis
    proof (cases "callbacks s ! index")
      case None
      from "1.IH"(1) [OF True None] obtain new where
        n: "invoked (snd (forEach (Suc index) t s)) = invoked s @ new"
           "sorted_wrt (<) (map fst new)" "\<forall>e\<in>set new. Suc index \<le> fst e \<and> snd (snd e) = t"
        by blast
      from n(3) have "\<forall>e\<in>set new. index \<le> fst e \<and> snd (snd e) = t"
        by auto
      with n(1,2) show ?thesis
        unfolding forEach_None [OF True None] by blast
    next
      case (Some cb)
      obtain l acts where cb: "cb = Callback l acts"
        by (cases cb)
      have i: "invoked (snd (invoke index cb t s)) = invoked s @ [(index, l, t)]"
        unfolding cb by (rule invoked_invoke)
      show ?thesis
      proof (cases "fst (invoke index cb t s)")
        case thrown: True
        have "invoked (snd (forEach index t s)) = invoked s @ [(index, l, t)]"
          using thrown i by (simp add: forEach_Some [OF True Some])
        then show ?thesis
          by (intro exI [of _ "[(index, l, t)]"]) simp
      next
        case False
        from "1.IH"(2) [OF True Some False] obtain new where
          n: "invoked (snd (forEach (Suc index) t (snd (invoke index cb t s))))
               = invoked (snd (invoke index cb t s)) @ new"
             "sorted_wrt (<) (map fst new)" "\<forall>e\<in>set new. Suc index \<le> fst e \<and> snd (snd e) = t"
          by blast
        have "invoked (snd (forEach index t s)) = invoked s @ (index, l, t) # new"
          using False n(1) i by (simp add: forEach_Some [OF True Some])
        moreover have "sorted_wrt (<) (map fst ((index, l, t) # new))"
          using n(2,3) by auto
        moreover have "\<forall>e\<in>set ((index, l, t) # new). index \<le> fst e \<and> snd (snd e) = t"
          using n(3) by auto
        ultimately show ?thesis
          by blast
      qed
    qed
  qed
qed

text \<open>The walk up to entry \<open>bound\<close> invokes only symbols below \<open>bound\<close>.\<close>

lemma walkTo_record:
  "\<exists>new. invoked (snd (walkTo bound index t s)) = invoked s @ new \<and> (\<forall>e\<in>set new. fst e < bound)"
proof (induction bound index t s rule: walkTo.induct)
  case (1 bound index t s)
  show ?case
  proof (cases "index < bound \<and> index < length (callbacks s)")
    case False
    then show ?thesis
      by (simp add: walkTo_end)
  next
    case True
    then have lt: "index < bound" and len: "index < length (callbacks s)"
      by simp_all
    show ?thesis
    proof (cases "callbacks s ! index")
      case None
      from "1.IH"(1) [OF True None] show ?thesis
        unfolding walkTo_None [OF lt len None] .
    next
      case (Some cb)
      obtain l acts where cb: "cb = Callback l acts"
        by (cases cb)
      have i: "invoked (snd (invoke index cb t s)) = invoked s @ [(index, l, t)]"
        unfolding cb by (rule invoked_invoke)
      show ?thesis
      proof (cases "fst (invoke index cb t s)")
        case thrown: True
        have "invoked (snd (walkTo bound index t s)) = invoked s @ [(index, l, t)]"
          using thrown i by (simp add: walkTo_Some [OF lt len Some])
        with lt show ?thesis
          by (intro exI [of _ "[(index, l, t)]"]) simp
      next
        case False
        from "1.IH"(2) [OF True Some False] obtain new where
          n: "invoked (snd (walkTo bound (Suc index) t (snd (invoke index cb t s))))
               = invoked (snd (invoke index cb t s)) @ new"
             "\<forall>e\<in>set new. fst e < bound"
          by blast
        have "invoked (snd (walkTo bound index t s)) = invoked s @ (index, l, t) # new"
          using False n(1) i by (simp add: walkTo_Some [OF lt len Some])
        moreover have "\<forall>e\<in>set ((index, l, t) # new). fst e < bound"
          using n(2) lt by auto
        ultimately show ?thesis
          by blast
      qed
    qed
  qed
qed

lemma forEach_from_Some:
  assumes "j < length (callbacks s)" and "callbacks s ! j = Some (Callback l acts)"
  shows "\<exists>new. invoked (snd (forEach j t s)) = invoked s @ (j, l, t) # new
           \<and> (\<forall>e\<in>set new. Suc j \<le> fst e)"
proof (cases "fst (invoke j (Callback l acts) t s)")
  case True
  then have "invoked (snd (forEach j t s)) = invoked s @ [(j, l, t)]"
    by (simp only: forEach_Some [OF assms] if_True invoked_invoke)
  then show ?thesis
    by simp
next
  case False
  let ?s = "snd (invoke j (Callback l acts) t s)"
  from forEach_record [of "Suc j" t ?s] obtain new where
    "invoked (snd (forEach (Suc j) t ?s)) = invoked ?s @ new" "\<forall>e\<in>set new. Suc j \<le> fst e"
    by blast
  then have "invoked (snd (forEach (Suc j) t ?s)) = invoked s @ (j, l, t) # new"
      and "\<forall>e\<in>set new. Suc j \<le> fst e"
    by (simp_all add: invoked_perform)
  with False show ?thesis
    by (simp only: forEach_Some [OF assms] if_False) blast
qed

lemma forEach_from_None:
  assumes "\<not> (j < length (callbacks s) \<and> callbacks s ! j \<noteq> None)"
  shows "\<exists>new. invoked (snd (forEach j t s)) = invoked s @ new \<and> (\<forall>e\<in>set new. Suc j \<le> fst e)"
proof (cases "j < length (callbacks s)")
  case False
  then show ?thesis
    by (simp add: forEach_end)
next
  case True
  with assms have n: "callbacks s ! j = None"
    by simp
  from forEach_record [of "Suc j" t s] show ?thesis
    unfolding forEach_None [OF True n] by blast
qed

lemma step_forEach:
  "fst (step t s) = fst (forEach 0 t s)
   \<and> callbacks (snd (step t s)) = callbacks (snd (forEach 0 t s))
   \<and> invoked (snd (step t s)) = invoked (snd (forEach 0 t s))"
  by (simp add: step_def raf_def Let_def split: prod.splits)

lemma invokedInTick_forEach:
  "invoked (snd (forEach 0 t s)) = invoked s @ new \<Longrightarrow> invokedInTick t s = new"
  by (simp add: invokedInTick_def step_forEach)

lemma invokedInTick_sorted: "sorted_wrt (<) (map fst (invokedInTick t s))"
proof -
  from forEach_record [of 0 t s] obtain new where
    "invoked (snd (forEach 0 t s)) = invoked s @ new" "sorted_wrt (<) (map fst new)"
    by blast
  then show ?thesis
    by (simp add: invokedInTick_forEach)
qed

lemma invokedInTick_iff:
  "(j, l, t') \<in> set (invokedInTick t s) \<longleftrightarrow>
     t' = t \<and> \<not> fst (walkTo j 0 t s) \<and> j < length (callbacks (snd (walkTo j 0 t s)))
     \<and> (\<exists>acts. callbacks (snd (walkTo j 0 t s)) ! j = Some (Callback l acts))"
proof -
  let ?w = "walkTo j 0 t s"
  from walkTo_record [of j 0 t s] obtain new1 where
    w: "invoked (snd ?w) = invoked s @ new1" "\<forall>e\<in>set new1. fst e < j"
    by blast
  from w(2) have notin1: "(j, l, t') \<notin> set new1"
    by auto
  note split = forEach_walkTo [of 0 j t s, simplified]
  show ?thesis
  proof (cases "fst ?w")
    case True
    with split have "forEach 0 t s = ?w"
      by simp
    with w(1) have "invokedInTick t s = new1"
      by (simp add: invokedInTick_forEach)
    with notin1 True show ?thesis
      by simp
  next
    case False
    with split have f: "forEach 0 t s = forEach j t (snd ?w)"
      by simp
    show ?thesis
    proof (cases "j < length (callbacks (snd ?w)) \<and> callbacks (snd ?w) ! j \<noteq> None")
      case alive: True
      then obtain l0 acts0 where e: "callbacks (snd ?w) ! j = Some (Callback l0 acts0)"
        by (metis callback.exhaust option.exhaust)
      from alive have len: "j < length (callbacks (snd ?w))"
        by simp
      from forEach_from_Some [OF len e, of t] obtain new2 where
        n: "invoked (snd (forEach j t (snd ?w))) = invoked (snd ?w) @ (j, l0, t) # new2"
           "\<forall>e\<in>set new2. Suc j \<le> fst e"
        by blast
      from n(2) have notin2: "(j, l, t') \<notin> set new2"
        by auto
      from n(1) w(1) f have "invokedInTick t s = new1 @ (j, l0, t) # new2"
        by (simp add: invokedInTick_forEach)
      with notin1 notin2 False len e show ?thesis
        by auto
    next
      case dead: False
      from forEach_from_None [OF dead, of t] obtain new2 where
        n: "invoked (snd (forEach j t (snd ?w))) = invoked (snd ?w) @ new2"
           "\<forall>e\<in>set new2. Suc j \<le> fst e"
        by blast
      from n(2) have notin2: "(j, l, t') \<notin> set new2"
        by auto
      from n(1) w(1) f have "invokedInTick t s = new1 @ new2"
        by (simp add: invokedInTick_forEach)
      with notin1 notin2 dead show ?thesis
        by auto
    qed
  qed
qed

lemma walkTo_not_thrown: "\<not> fst (step t s) \<Longrightarrow> \<not> fst (walkTo j 0 t s)"
  using forEach_walkTo [of 0 j t s] by (auto simp: step_forEach)

lemma present_after_tick:
  assumes "\<not> fst (step t s)" and "j < length (callbacks (snd (step t s)))"
      and "callbacks (snd (step t s)) ! j = Some (Callback l acts)"
  shows "(j, l, t) \<in> set (invokedInTick t s)"
proof -
  let ?w = "walkTo j 0 t s"
  from assms(1) have nt: "\<not> fst ?w"
    by (rule walkTo_not_thrown)
  with forEach_walkTo [of 0 j t s] have f: "forEach 0 t s = forEach j t (snd ?w)"
    by simp
  from assms(2,3) have a: "j < length (callbacks (snd (forEach j t (snd ?w))))"
      "callbacks (snd (forEach j t (snd ?w))) ! j = Some (Callback l acts)"
    by (simp_all add: step_forEach f)
  have len: "j < length (callbacks (snd ?w))"
  proof (rule ccontr)
    assume "\<not> j < length (callbacks (snd ?w))"
    then have "forEach j t (snd ?w) = (False, snd ?w)"
      by (rule forEach_end)
    with a(1) \<open>\<not> j < length (callbacks (snd ?w))\<close> show False
      by simp
  qed
  from keeps_forEach [of "snd ?w" j t] len a(2)
  have "callbacks (snd ?w) ! j = Some (Callback l acts)"
    by (rule keeps_entry)
  with nt len show ?thesis
    unfolding invokedInTick_iff by blast
qed

text \<open>
  Claim C4, as the source has it. \<^verbatim>\<open>Map.prototype.forEach\<close> visits the entries that are
  added while it runs, in the order of their subscription. Take any subscription \<open>j\<close>,
  made before the tick or by a callback during it, and the state of the coordinator when
  the walk reaches its entry (\<open>walkTo j 0 t s\<close>, after which the walk goes on from entry
  \<open>j\<close>). The subscriber is invoked in this very tick, with the tick's timestamp, exactly
  when no callback has thrown before and it is still subscribed at that moment, whatever
  happens to it later in the tick; the subscribers are invoked in the order of their
  subscription, each at most once; and a tick in which no callback throws reaches every
  entry, so every subscriber still subscribed when such a tick ends has been invoked
  in it.
\<close>

theorem subscriber_invoked_when_walk_reaches_it:
  "forEach 0 t s =
     (if fst (walkTo j 0 t s) then walkTo j 0 t s else forEach j t (snd (walkTo j 0 t s)))
   \<and> sorted_wrt (<) (map fst (invokedInTick t s))
   \<and> ((j, l, t') \<in> set (invokedInTick t s) \<longleftrightarrow>
        t' = t \<and> \<not> fst (walkTo j 0 t s) \<and> j < length (callbacks (snd (walkTo j 0 t s)))
        \<and> (\<exists>acts. callbacks (snd (walkTo j 0 t s)) ! j = Some (Callback l acts)))
   \<and> (\<not> fst (step t s) \<longrightarrow> \<not> fst (walkTo j 0 t s))
   \<and> (\<not> fst (step t s) \<and> j < length (callbacks (snd (step t s)))
        \<and> callbacks (snd (step t s)) ! j = Some (Callback l acts')
      \<longrightarrow> (j, l, t) \<in> set (invokedInTick t s))"
  using forEach_walkTo [of 0 j t s] invokedInTick_sorted [of t s]
    invokedInTick_iff [of j l t' t s] walkTo_not_thrown [of t s j]
    present_after_tick [of t s j l acts']
  by simp

lemma example_walk:
  "walkTo 1 0 16 (snd (add (Callback 1 [Subscribe (Callback 2 [Unsubscribe 1])]) initial))
     = (False, \<lparr>callbacks = [Some (Callback 1 [Subscribe (Callback 2 [Unsubscribe 1])]),
                              Some (Callback 2 [Unsubscribe 1])],
                 rafId = Some 0, pending = [0], nextHandle = 1, invoked = [(0, 1, 16)]\<rparr>)"
  by (simp add: add_def ensureLoop_def raf_def initial_def Let_def walkTo_Some walkTo_end)

lemma example_tick:
  "step 16 (snd (add (Callback 1 [Subscribe (Callback 2 [Unsubscribe 1])]) initial))
     = (False, \<lparr>callbacks = [Some (Callback 1 [Subscribe (Callback 2 [Unsubscribe 1])]), None],
                 rafId = Some 1, pending = [0, 1], nextHandle = 2,
                 invoked = [(0, 1, 16), (1, 2, 16)]\<rparr>)"
  by (simp add: step_def add_def remove_def has_def ensureLoop_def raf_def caf_def initial_def
        size_callbacks_def Let_def forEach_Some forEach_end)

theorem subscriber_invoked_when_walk_reaches_it_witness:
  "\<not> fst (walkTo 1 0 16 (snd (add (Callback 1 [Subscribe (Callback 2 [Unsubscribe 1])]) initial)))
   \<and> length (callbacks (snd (add (Callback 1 [Subscribe (Callback 2 [Unsubscribe 1])]) initial))) = 1
   \<and> callbacks (snd (walkTo 1 0 16
         (snd (add (Callback 1 [Subscribe (Callback 2 [Unsubscribe 1])]) initial)))) ! 1
       = Some (Callback 2 [Unsubscribe 1])
   \<and> callbacks (snd (step 16
         (snd (add (Callback 1 [Subscribe (Callback 2 [Unsubscribe 1])]) initial)))) ! 1 = None
   \<and> (1, 2, 16) \<in> set (invokedInTick 16
         (snd (add (Callback 1 [Subscribe (Callback 2 [Unsubscribe 1])]) initial)))
   \<and> \<not> fst (step 16 (snd (add (Callback 1 [Subscribe (Callback 2 [Unsubscribe 1])]) initial)))
   \<and> callbacks (snd (step 16
         (snd (add (Callback 1 [Subscribe (Callback 2 [Unsubscribe 1])]) initial)))) ! 0
       = Some (Callback 1 [Subscribe (Callback 2 [Unsubscribe 1])])
   \<and> (0, 1, 16) \<in> set (invokedInTick 16
         (snd (add (Callback 1 [Subscribe (Callback 2 [Unsubscribe 1])]) initial)))"
proof -
  let ?s = "snd (add (Callback 1 [Subscribe (Callback 2 [Unsubscribe 1])]) initial)"
  have h0: "length (callbacks ?s) = 1"
    by (simp add: initial_def)
  have w1: "\<not> fst (walkTo 1 0 16 ?s)"
    unfolding example_walk by simp
  have w2: "1 < length (callbacks (snd (walkTo 1 0 16 ?s)))"
    unfolding example_walk by simp
  have w3: "callbacks (snd (walkTo 1 0 16 ?s)) ! 1 = Some (Callback 2 [Unsubscribe 1])"
    unfolding example_walk by simp
  have e1: "callbacks (snd (step 16 ?s)) ! 1 = None"
    unfolding example_tick by simp
  have e2: "\<not> fst (step 16 ?s)"
    unfolding example_tick by simp
  have e3: "0 < length (callbacks (snd (step 16 ?s)))"
    unfolding example_tick by simp
  have e4: "callbacks (snd (step 16 ?s)) ! 0 = Some (Callback 1 [Subscribe (Callback 2 [Unsubscribe 1])])"
    unfolding example_tick by simp
  from subscriber_invoked_when_walk_reaches_it [of 16 ?s 1 2 16] w1 w2 w3
  have a: "(1, 2, 16) \<in> set (invokedInTick 16 ?s)"
    by blast
  from subscriber_invoked_when_walk_reaches_it
         [of 16 ?s 0 1 16 "[Subscribe (Callback 2 [Unsubscribe 1])]"] e2 e3 e4
  have b: "(0, 1, 16) \<in> set (invokedInTick 16 ?s)"
    by blast
  from h0 w1 w3 e1 e2 e4 a b show ?thesis
    by blast
qed

theorem added_in_tick_counterexample:
  "invoked (frame 0 16 (snd (add (Callback 1 [Subscribe (Callback 2 [])]) initial)))
     = [(0, 1, 16), (1, 2, 16)]"
  by (simp add: frame_def step_def add_def remove_def has_def ensureLoop_def raf_def caf_def
        initial_def size_callbacks_def Let_def forEach_Some forEach_end)

subsection \<open>One frame request, as long as no callback calls the coordinator\<close>

lemma forEach_passive:
  "all_passive s \<Longrightarrow>
     forEach index t s = (False, s\<lparr>invoked := invoked (snd (forEach index t s))\<rparr>)"
proof (induction index t s rule: forEach.induct)
  case (1 index t s)
  show ?case
  proof (cases "index < length (callbacks s)")
    case False
    then show ?thesis
      by (simp add: forEach_end)
  next
    case True
    show ?thesis
    proof (cases "callbacks s ! index")
      case None
      with True "1.IH"(1) "1.prems" show ?thesis
        by (simp add: forEach_None)
    next
      case (Some cb)
      obtain l acts where cb: "cb = Callback l acts"
        by (cases cb)
      from "1.prems" True Some have "passive_cb cb"
        by (auto simp: all_passive_def list_all_length split: option.splits)
      with cb have i: "invoke index cb t s = (False, s\<lparr>invoked := invoked s @ [(index, l, t)]\<rparr>)"
        by simp
      then have nt: "\<not> fst (invoke index cb t s)"
        by simp
      from i "1.prems" have "all_passive (snd (invoke index cb t s))"
        by (simp add: all_passive_def)
      from "1.IH"(2) [OF True Some nt this] i
      have "forEach (Suc index) t (snd (invoke index cb t s))
          = (False, s\<lparr>invoked := invoked (snd (forEach (Suc index) t (snd (invoke index cb t s))))\<rparr>)"
        by simp
      with nt show ?thesis
        by (simp only: forEach_Some [OF True Some] if_False)
    qed
  qed
qed

lemma has_size: "has i s \<Longrightarrow> 0 < size_callbacks s"
  by (auto simp: has_def size_callbacks_def filter_empty_conv intro: nth_mem)

lemma one_request_add: "one_request s \<Longrightarrow> one_request (snd (add cb s))"
  by (auto simp: one_request_def add_def ensureLoop_def raf_def size_callbacks_def Let_def
        split: if_splits)

lemma one_request_remove: "one_request s \<Longrightarrow> one_request (remove i s)"
proof (cases "has i s")
  case False
  then show "one_request s \<Longrightarrow> one_request (remove i s)"
    by (simp add: remove_def)
next
  case True
  assume o: "one_request s"
  from has_size [OF True] o obtain h where h: "rafId s = Some h" "pending s = [h]"
    by (auto simp: one_request_def)
  with True show "one_request (remove i s)"
    by (simp add: remove_def one_request_def caf_def Let_def size_callbacks_def)
qed

lemma one_request_frame:
  assumes "one_request s" and "all_passive s"
  shows "one_request (frame h t s)"
proof (cases "h \<in> set (pending s)")
  case False
  with assms(1) show ?thesis
    by (simp add: frame_def)
next
  case True
  with assms(1) have p: "0 < size_callbacks s" "pending s = [h]"
    by (auto simp: one_request_def split: if_splits)
  let ?s = "s\<lparr>pending := removeAll h (pending s)\<rparr>"
  from assms(2) have "all_passive ?s"
    by (simp add: all_passive_def)
  from forEach_passive [OF this, of 0 t]
  obtain iv where f: "forEach 0 t ?s = (False, ?s\<lparr>invoked := iv\<rparr>)"
    by blast
  with True p show ?thesis
    by (simp add: frame_def step_def raf_def one_request_def size_callbacks_def Let_def)
qed

lemma all_passive_apply_op:
  "all_passive s \<Longrightarrow> passive_op x \<Longrightarrow> all_passive (apply_op x s)"
proof (cases x)
  case (Add cb)
  then show "all_passive s \<Longrightarrow> passive_op x \<Longrightarrow> all_passive (apply_op x s)"
    by (simp add: all_passive_def)
next
  case (Remove i)
  then show "all_passive s \<Longrightarrow> passive_op x \<Longrightarrow> all_passive (apply_op x s)"
    by (auto simp: all_passive_def callbacks_remove list_all_length nth_list_update has_def)
next
  case (Frame h t)
  assume a: "all_passive s"
  then have "all_passive (s\<lparr>pending := removeAll h (pending s)\<rparr>)"
    by (simp add: all_passive_def)
  from forEach_passive [OF this, of 0 t]
  obtain iv where "forEach 0 t (s\<lparr>pending := removeAll h (pending s)\<rparr>)
      = (False, s\<lparr>pending := removeAll h (pending s), invoked := iv\<rparr>)"
    by auto
  then have "callbacks (snd (forEach 0 t (s\<lparr>pending := removeAll h (pending s)\<rparr>))) = callbacks s"
    by simp
  with a Frame show "all_passive (apply_op x s)"
    by (simp add: all_passive_def frame_def step_forEach)
qed

lemma one_request_apply_ops:
  "one_request s \<Longrightarrow> all_passive s \<Longrightarrow> list_all passive_op xs \<Longrightarrow>
     one_request (apply_ops xs s)"
proof (induction xs arbitrary: s)
  case Nil
  then show ?case by simp
next
  case (Cons x xs)
  have "one_request (apply_op x s)"
    using Cons.prems(1,2)
    by (cases x) (simp_all add: one_request_add one_request_remove one_request_frame)
  moreover have "all_passive (apply_op x s)"
    using Cons.prems by (intro all_passive_apply_op) simp_all
  ultimately show ?case
    using Cons.prems(3) by (simp add: Cons.IH)
qed

lemma one_request_passive:
  "list_all passive_op xs \<Longrightarrow> one_request (apply_ops xs initial)"
  by (rule one_request_apply_ops) (simp_all add: one_request_def all_passive_def initial_def size_callbacks_def)

text \<open>
  Claim C2. As long as no callback calls the coordinator, every sequence of
  subscriptions, unsubscriptions and frames leaves exactly one request outstanding while
  there is a subscriber and none otherwise (\<open>one_request_passive\<close>). A callback that
  unsubscribes the last subscriber and subscribes again within a tick breaks this:
  \<^verbatim>\<open>remove\<close> resets \<open>rafId\<close>, so \<^verbatim>\<open>ensureLoop\<close> requests a frame for the new subscriber,
  and \<^verbatim>\<open>step\<close> requests another one when the walk is over. After the tick there are
  one subscriber and two outstanding requests; when that subscriber is removed, one of
  them is cancelled and the other stays outstanding with no subscriber left.
\<close>

theorem two_requests_after_resubscribing_in_tick:
  "size_callbacks (frame 0 16 (snd (add (Callback 1 [Unsubscribe 0, Subscribe (Callback 2 [])]) initial))) = 1
   \<and> pending (frame 0 16 (snd (add (Callback 1 [Unsubscribe 0, Subscribe (Callback 2 [])]) initial))) = [1, 2]
   \<and> size_callbacks (remove 1
         (frame 0 16 (snd (add (Callback 1 [Unsubscribe 0, Subscribe (Callback 2 [])]) initial)))) = 0
   \<and> pending (remove 1
         (frame 0 16 (snd (add (Callback 1 [Unsubscribe 0, Subscribe (Callback 2 [])]) initial)))) = [1]"
  by (simp add: frame_def step_def add_def remove_def has_def ensureLoop_def raf_def caf_def
        initial_def size_callbacks_def Let_def forEach_Some forEach_end)

end
